theory Spec2Isabelle
  imports Complex_Main "HOL-Library.Sublist"
begin

section \<open>The rate-limited access layer of calibre-comicvine (client.py)\<close>

text \<open>
  Conventions of the embedding.
  \<^item> Python integers are \<open>int\<close>. Wall-clock time (\<open>time.time()\<close>) and durations are
    \<open>real\<close>: the float arithmetic of the source is read as exact arithmetic.
  \<^item> The persisted \<open>JSONConfig\<close> record of the token bucket is the record \<open>params\<close>;
    \<open>PREFS\<close> is the record \<open>prefs\<close>, a parameter of every operation that reads it.
  \<^item> \<open>self.params.refresh()\<close> re-reads the record from disk and \<open>self.lock\<close> serialises
    the threads of one process: with one thread and no other writer both are the identity,
    and this is the setting modelled.
  \<^item> An exception is a value of type \<open>exn\<close>; an operation that can block or raise returns
    an \<open>outcome\<close>.
  \<^item> Calls that act on the outside are recorded, in order, in a trace of \<open>event\<close>s.
    Log output is not recorded.
\<close>

subsection \<open>Data\<close>

record params =
  tokens :: int
  update :: real

record prefs =
  request_interval :: real
  request_batch_size :: int
  retries :: int

text \<open>
  The exception classes the source distinguishes: the two named in the \<open>except\<close> clauses of
  \<open>retry_function\<close>, the two that library calls of the token bucket raise
  (\<open>1.0 / 0\<close> and \<open>time.sleep\<close> of a negative number, an \<open>IOError\<close> on POSIX), any other
  instance of \<open>Exception\<close>, and the exceptions outside \<open>Exception\<close>
  (\<open>KeyboardInterrupt\<close>, \<open>SystemExit\<close>), which \<open>except Exception\<close> does not catch.
  The string is the message; \<open>HTTPError\<close> also carries its status code.
\<close>

datatype exn =
  RateLimitExceededError string
  | HTTPError int string
  | ZeroDivisionError
  | IOError
  | Exception string
  | BaseException string

datatype 'a outcome = Returned 'a | Raised exn | Blocked

datatype event = Sleep real | TakeToken | Call int

record world =
  bucket :: params
  trace :: "event list"

subsection \<open>TokenBucket\<close>

text \<open>Python's \<open>int(x)\<close> on a float: truncation towards zero.\<close>

definition py_int :: "real \<Rightarrow> int" where
  "py_int x = (if 0 \<le> x then \<lfloor>x\<rfloor> else \<lceil>x\<rceil>)"

text \<open>
  The property \<open>TokenBucket.tokens\<close>. \<open>now\<close> is what \<open>time.time()\<close> returns if the
  property calls it. The result is the value returned (or the exception raised) and the
  record as the property leaves it.
\<close>

definition TokenBucket_tokens :: "prefs \<Rightarrow> real \<Rightarrow> params \<Rightarrow> (exn + int) \<times> params" where
  "TokenBucket_tokens P now p =
     (if tokens p < request_batch_size P then
        (let elapsed = now - update p in
         if elapsed > 0 then
           (if request_interval P = 0 then (Inl ZeroDivisionError, p)
            else
              (let new_tokens = py_int (elapsed * (1 / request_interval P)) in
               if new_tokens \<noteq> 0 then
                 (let p1 = (if new_tokens + tokens p < request_batch_size P
                            then p\<lparr>tokens := tokens p + new_tokens\<rparr>
                            else p\<lparr>tokens := request_batch_size P\<rparr>);
                      p2 = p1\<lparr>update := now\<rparr>
                  in (Inr (tokens p2), p2))
               else (Inr (tokens p), p)))
         else (Inr (tokens p), p))
      else (Inr (tokens p), p))"

text \<open>
  The delay \<open>consume\<close> computes in its loop body, from the configured interval and the
  \<open>time_since_last_request\<close> measured at entry.
\<close>

definition consume_delay :: "real \<Rightarrow> real \<Rightarrow> real" where
  "consume_delay interval time_since_last_request =
     (if interval > time_since_last_request then interval - time_since_last_request
      else interval)"

text \<open>
  The loop \<open>while self.tokens < 1: ... time.sleep(delay)\<close> of \<open>consume\<close>, followed by the
  decrement. The list holds the clock at the successive evaluations of \<open>self.tokens\<close>:
  its k-th element is what \<open>time.time()\<close> returns during the k-th evaluation. The loop can
  run for ever; a run is followed as far as the list reaches, and \<open>Blocked\<close> says the loop
  is still waiting there.
\<close>

fun consume_loop :: "prefs \<Rightarrow> real \<Rightarrow> real list \<Rightarrow> world \<Rightarrow> unit outcome \<times> world" where
  "consume_loop P tslr [] w = (Blocked, w)"
| "consume_loop P tslr (now # ticks) w =
     (case TokenBucket_tokens P now (bucket w) of
        (Inl e, p) \<Rightarrow> (Raised e, w\<lparr>bucket := p\<rparr>)
      | (Inr n, p) \<Rightarrow>
          if n < 1 then
            (let delay = consume_delay (request_interval P) tslr;
                 w1 = w\<lparr>bucket := p, trace := trace w @ [Sleep delay]\<rparr>
             in if delay < 0 then (Raised IOError, w1)
                else consume_loop P tslr ticks w1)
          else
            (Returned (),
             w\<lparr>bucket := p\<lparr>tokens := tokens p - 1\<rparr>, trace := trace w @ [TakeToken]\<rparr>))"

text \<open>\<open>TokenBucket.consume\<close>; \<open>t0\<close> is the clock at entry.\<close>

definition TokenBucket_consume :: "prefs \<Rightarrow> real \<Rightarrow> real list \<Rightarrow> world \<Rightarrow> unit outcome \<times> world" where
  "TokenBucket_consume P t0 ticks w =
     (let time_since_last_request = t0 - update (bucket w);
          interval = request_interval P
      in consume_loop P time_since_last_request ticks w)"

text \<open>
  Sequences of uses of the bucket. \<open>Consume t0 ticks\<close> is a call of \<open>consume\<close> under the
  clock readings given, \<open>ReadTokens now\<close> a read of the property \<open>tokens\<close>. An operation
  that raises or is still blocked leaves the record as it is at that point.
\<close>

datatype bucket_op = Consume real "real list" | ReadTokens real

definition apply_op :: "prefs \<Rightarrow> bucket_op \<Rightarrow> world \<Rightarrow> world" where
  "apply_op P op w =
     (case op of
        Consume t0 ticks \<Rightarrow> snd (TokenBucket_consume P t0 ticks w)
      | ReadTokens now \<Rightarrow> w\<lparr>bucket := snd (TokenBucket_tokens P now (bucket w))\<rparr>)"

definition run_ops :: "prefs \<Rightarrow> bucket_op list \<Rightarrow> world \<Rightarrow> world" where
  "run_ops P ops w = foldl (\<lambda>w op. apply_op P op w) w ops"

text \<open>The record after the property \<open>tokens\<close> has been evaluated at each of the readings.\<close>

definition refreshed :: "prefs \<Rightarrow> real list \<Rightarrow> params \<Rightarrow> params" where
  "refreshed P ticks p = foldl (\<lambda>p now. snd (TokenBucket_tokens P now p)) p ticks"

subsection \<open>retry_on_comicvine_error\<close>

text \<open>
  What the surroundings do during one pass of the loop of \<open>retry_function\<close>: the clock
  at the entry of \<open>consume\<close> and at the evaluations of \<open>self.tokens\<close> in its loop, what the
  call of \<open>target_function\<close> does (an exception, or a value, \<open>None\<close> being Python's
  \<open>None\<close>), and what \<open>random.random()\<close> returns.
\<close>

record 'a attempt =
  clock_at_entry :: real
  clock_in_loop :: "real list"
  target_result :: "exn + 'a option"
  random_value :: real

definition handle_rate_limit :: "exn \<Rightarrow> world \<Rightarrow> unit outcome \<times> world" where
  "handle_rate_limit e w = (Raised e, w)"

definition handle_exception :: "prefs \<Rightarrow> int \<Rightarrow> real \<Rightarrow> exn \<Rightarrow> world \<Rightarrow> unit outcome \<times> world" where
  "handle_exception P retry rnd e w =
     (if retry \<ge> retries P then (Raised e, w)
      else (Returned (), w\<lparr>trace := trace w @ [Sleep (rnd / 2 + 1 / 10)]\<rparr>))"

text \<open>
  The \<open>except\<close> clauses of \<open>retry_function\<close>, in the order of the source. An exception no
  clause matches leaves the function.
\<close>

definition except_clauses :: "prefs \<Rightarrow> int \<Rightarrow> real \<Rightarrow> exn \<Rightarrow> world \<Rightarrow> unit outcome \<times> world" where
  "except_clauses P retry rnd e w =
     (case e of
        RateLimitExceededError m \<Rightarrow> handle_rate_limit e w
      | HTTPError code m \<Rightarrow>
          if code = 420 then handle_rate_limit e w else handle_exception P retry rnd e w
      | BaseException m \<Rightarrow> (Raised e, w)
      | _ \<Rightarrow> handle_exception P retry rnd e w)"

text \<open>The body of \<open>for retry in range(1, retries + 1)\<close>, over the values left to visit.\<close>

fun retry_loop :: "prefs \<Rightarrow> (int \<Rightarrow> 'a attempt) \<Rightarrow> int list \<Rightarrow> world \<Rightarrow> 'a option outcome \<times> world" where
  "retry_loop P env [] w = (Returned None, w)"
| "retry_loop P env (retry # rest) w =
     (case TokenBucket_consume P (clock_at_entry (env retry)) (clock_in_loop (env retry)) w of
        (Raised e, w1) \<Rightarrow> (Raised e, w1)
      | (Blocked, w1) \<Rightarrow> (Blocked, w1)
      | (Returned _, w1) \<Rightarrow>
          (let w2 = w1\<lparr>trace := trace w1 @ [Call retry]\<rparr> in
           case target_result (env retry) of
             Inr v \<Rightarrow> (Returned v, w2)
           | Inl e \<Rightarrow>
               (case except_clauses P retry (random_value (env retry)) e w2 of
                  (Raised e', w3) \<Rightarrow> (Raised e', w3)
                | (Blocked, w3) \<Rightarrow> (Blocked, w3)
                | (Returned _, w3) \<Rightarrow> retry_loop P env rest w3)))"

text \<open>
  \<open>retry_function\<close>: \<open>range(1, retries + 1)\<close> is the list \<open>[1..retries]\<close>, empty when
  \<open>retries < 1\<close>; a loop that ends without \<open>return\<close> or \<open>raise\<close> makes the function
  return \<open>None\<close>.
\<close>

definition retry_function :: "prefs \<Rightarrow> (int \<Rightarrow> 'a attempt) \<Rightarrow> world \<Rightarrow> 'a option outcome \<times> world" where
  "retry_function P env w = retry_loop P env [1..retries P] w"

text \<open>Readings of a trace: the attempts made, and the number of tokens taken.\<close>

fun calls :: "event list \<Rightarrow> int list" where
  "calls [] = []"
| "calls (Call k # es) = k # calls es"
| "calls (_ # es) = calls es"

definition tokens_taken :: "event list \<Rightarrow> nat" where
  "tokens_taken es = length (filter (\<lambda>e. e = TakeToken) es)"

text \<open>
  The classes of exceptions the claims speak of: the instances of \<open>Exception\<close>, and the
  rate-limit class (the quota error of pycomicvine, and an HTTP error of status 420).
\<close>

fun instance_of_Exception :: "exn \<Rightarrow> bool" where
  "instance_of_Exception (BaseException m) = False"
| "instance_of_Exception _ = True"

fun rate_limit_class :: "exn \<Rightarrow> bool" where
  "rate_limit_class (RateLimitExceededError m) = True"
| "rate_limit_class (HTTPError code m) = (code = 420)"
| "rate_limit_class _ = False"

subsection \<open>cache_comicvine\<close>

text \<open>
  \<open>temp_directory\<close> is the value of \<open>os.getenv('TMPDIR')\<close>. \<open>pyfscache.FSCache\<close> is a
  third-party class: \<open>FSCache path\<close> stands for the decorator \<open>FSCache(path, hours=1)\<close>,
  a parameter of the model. A method takes the instance and the remaining arguments.
\<close>

definition cache_comicvine ::
  "(string \<Rightarrow> ('a \<Rightarrow> 'r) \<Rightarrow> ('a \<Rightarrow> 'r)) \<Rightarrow> string option \<Rightarrow> string \<Rightarrow> ('s \<Rightarrow> 'a \<Rightarrow> 'r) \<Rightarrow> ('s \<Rightarrow> 'a \<Rightarrow> 'r)" where
  "cache_comicvine FSCache temp_directory cache_name target_function =
     (case temp_directory of
        Some dir \<Rightarrow>
          (let path = dir @ ''/calibre-comicvine/'' @ cache_name;
               cache_it = FSCache path
           in (\<lambda>self args. cache_it (\<lambda>args'. target_function self args') args))
      | None \<Rightarrow> target_function)"

subsection \<open>PyComicvineWrapper.lookup_issue_image_urls\<close>

text \<open>
  The answer of \<open>pycomicvine.Issue(issue_id, field_list=['image'])\<close>: an issue that is
  false in a condition (\<open>None\<close> here), or one whose \<open>image\<close> is \<open>None\<close> or a dictionary
  from keys to URLs, here an association list read with \<open>map_of\<close>. An empty dictionary
  is false in a condition, as \<open>None\<close> is.
\<close>

type_synonym 'u image_dict = "(string \<times> 'u) list"

definition url_keys :: "string list" where
  "url_keys = [''super_url'', ''medium_url'', ''small_url'']"

text \<open>The loop over the keys, with its \<open>break\<close>; \<open>urls\<close> is the list built so far.\<close>

fun collect_urls :: "'u image_dict \<Rightarrow> bool \<Rightarrow> string list \<Rightarrow> 'u list \<Rightarrow> 'u list" where
  "collect_urls img get_best_cover [] urls = urls"
| "collect_urls img get_best_cover (url_key # more_keys) urls =
     (case map_of img url_key of
        Some url \<Rightarrow>
          if get_best_cover then urls @ [url]
          else collect_urls img get_best_cover more_keys (urls @ [url])
      | None \<Rightarrow> collect_urls img get_best_cover more_keys urls)"

text \<open>
  The body of the method, from the answer of the catalog on. A request that raises
  leaves the body with that exception.
\<close>

definition lookup_issue_image_urls :: "exn + 'u image_dict option option \<Rightarrow> bool \<Rightarrow> exn + 'u list" where
  "lookup_issue_image_urls answer get_best_cover =
     (case answer of
        Inl e \<Rightarrow> Inl e
      | Inr None \<Rightarrow> Inr []
      | Inr (Some None) \<Rightarrow> Inr []
      | Inr (Some (Some img)) \<Rightarrow>
          if img \<noteq> [] then Inr (collect_urls img get_best_cover url_keys [])
          else Inr [])"

section \<open>The ranking functions (ranking.py)\<close>

subsection \<open>Strings\<close>

text \<open>
  \<open>str.lower\<close> and \<open>str.strip\<close> of Python 2 on byte strings, and the substring test
  \<open>a in b\<close>.
\<close>

definition ascii_uppercase :: string where
  "ascii_uppercase = ''ABCDEFGHIJKLMNOPQRSTUVWXYZ''"

definition ascii_lowercase :: string where
  "ascii_lowercase = ''abcdefghijklmnopqrstuvwxyz''"

definition lower_char :: "char \<Rightarrow> char" where
  "lower_char c =
     (case map_of (zip ascii_uppercase ascii_lowercase) c of Some l \<Rightarrow> l | None \<Rightarrow> c)"

definition lower :: "string \<Rightarrow> string" where
  "lower s = map lower_char s"

definition is_space :: "char \<Rightarrow> bool" where
  "is_space c = ((of_char c :: nat) \<in> {9, 10, 11, 12, 13, 32})"

definition strip :: "string \<Rightarrow> string" where
  "strip s = rev (dropWhile is_space (rev (dropWhile is_space s)))"

fun is_substring :: "string \<Rightarrow> string \<Rightarrow> bool" where
  "is_substring t [] = (t = [])"
| "is_substring t (c # cs) = (prefix t (c # cs) \<or> is_substring t cs)"

definition is_digit :: "char \<Rightarrow> bool" where
  "is_digit c = (48 \<le> (of_char c :: nat) \<and> (of_char c :: nat) \<le> 57)"

definition digit_value :: "char \<Rightarrow> int" where
  "digit_value c = int (of_char c) - 48"

subsection \<open>score_title_tokens and score_publish_date\<close>

text \<open>
  Modelled from the spec: \<open>ranking.score_title_tokens\<close>, whose source file ranking.py is
  missing; only its unit tests are present. The spec: for each token, if the lowercased
  token is not a substring of the lowercased, whitespace-trimmed title, add 10; no
  tokens, 0.
\<close>

definition score_title_tokens :: "string \<Rightarrow> string list \<Rightarrow> int" where
  "score_title_tokens title title_tokens =
     foldl (\<lambda>score token.
              if \<not> is_substring (lower token) (lower (strip title)) then score + 10 else score)
       0 title_tokens"

text \<open>
  Modelled from the spec: the year of a title, used by \<open>ranking.score_publish_date\<close>
  (ranking.py is missing). The spec: parse an optional 4-digit year in parentheses from
  the title text. The first such group from the left is taken.
\<close>

fun title_year :: "string \<Rightarrow> int option" where
  "title_year (c0 # c1 # c2 # c3 # c4 # c5 # rest) =
     (if c0 = CHR ''('' \<and> is_digit c1 \<and> is_digit c2 \<and> is_digit c3 \<and> is_digit c4 \<and> c5 = CHR '')''
      then Some (1000 * digit_value c1 + 100 * digit_value c2 + 10 * digit_value c3 + digit_value c4)
      else title_year (c1 # c2 # c3 # c4 # c5 # rest))"
| "title_year _ = None"

text \<open>
  Modelled from the spec: \<open>ranking.score_publish_date\<close> (ranking.py is missing). The
  known date is given by its year. The spec: known date absent, 10, whether or not the
  title carries a year; known date present and no year parseable from the title, 0; both
  present, the absolute difference of the years.
\<close>

definition score_publish_date :: "string \<Rightarrow> int option \<Rightarrow> int" where
  "score_publish_date title known_date =
     (case known_date of
        None \<Rightarrow> 10
      | Some year \<Rightarrow>
          (case title_year title of
             None \<Rightarrow> 0
           | Some title_year' \<Rightarrow> abs (title_year' - year)))"

section \<open>Properties of the token bucket\<close>

subsection \<open>The property \<open>tokens\<close>\<close>

lemma py_int_nonneg: "0 \<le> x \<Longrightarrow> 0 \<le> py_int x"
  by (simp add: py_int_def)

lemma minted_nonneg:
  assumes "0 \<le> request_interval P" "0 < el"
  shows "0 \<le> py_int (el * (1 / request_interval P))"
  using assms by (intro py_int_nonneg) simp

lemma tokens_accessor_result:
  "fst (TokenBucket_tokens P now p) = Inr (tokens (snd (TokenBucket_tokens P now p)))
   \<or> TokenBucket_tokens P now p = (Inl ZeroDivisionError, p)"
  by (simp add: TokenBucket_tokens_def Let_def)

lemma tokens_accessor_mono:
  assumes "0 \<le> request_interval P"
  shows "tokens p \<le> tokens (snd (TokenBucket_tokens P now p))"
  using minted_nonneg [OF assms, of "now - update p"]
  by (simp add: TokenBucket_tokens_def Let_def)

lemma tokens_accessor_upper:
  assumes "tokens p \<le> request_batch_size P"
  shows "tokens (snd (TokenBucket_tokens P now p)) \<le> request_batch_size P"
  using assms by (simp add: TokenBucket_tokens_def Let_def)

lemma refreshed_Cons:
  "refreshed P (now # ticks) p = refreshed P ticks (snd (TokenBucket_tokens P now p))"
  by (simp add: refreshed_def)

subsection \<open>The loop of \<open>consume\<close>\<close>

text \<open>
  With a non-negative interval, \<open>consume\<close> lowers the count by at most one, lowers it
  only when it returns, and keeps it within the bounds.
\<close>

lemma consume_loop_bounds:
  assumes "0 \<le> request_interval P"
  shows "tokens (bucket w) - 1 \<le> tokens (bucket (snd (consume_loop P tslr ticks w)))
       \<and> (fst (consume_loop P tslr ticks w) \<noteq> Returned () \<longrightarrow>
            tokens (bucket w) \<le> tokens (bucket (snd (consume_loop P tslr ticks w))))
       \<and> (0 \<le> tokens (bucket w) \<longrightarrow> 0 \<le> tokens (bucket (snd (consume_loop P tslr ticks w))))
       \<and> (tokens (bucket w) \<le> request_batch_size P \<longrightarrow>
            tokens (bucket (snd (consume_loop P tslr ticks w))) \<le> request_batch_size P)"
proof (induction ticks arbitrary: w)
  case Nil
  show ?case by simp
next
  case (Cons now ticks)
  obtain r p where acc: "TokenBucket_tokens P now (bucket w) = (r, p)"
    by (cases "TokenBucket_tokens P now (bucket w)")
  have mono: "tokens (bucket w) \<le> tokens p"
    using tokens_accessor_mono [OF assms, of "bucket w" now] acc by simp
  have upper: "tokens (bucket w) \<le> request_batch_size P \<longrightarrow> tokens p \<le> request_batch_size P"
    using tokens_accessor_upper [of "bucket w" P now] acc by simp
  have res: "r = Inr (tokens p) \<or> r = Inl ZeroDivisionError"
    using tokens_accessor_result [of P now "bucket w"] acc by auto
  show ?case
  proof (cases r)
    case (Inl e)
    with acc mono upper show ?thesis by auto
  next
    case (Inr n)
    with res have n: "n = tokens p" by simp
    show ?thesis
    proof (cases "n < 1")
      case False
      with acc Inr n mono upper show ?thesis by auto
    next
      case True
      let ?w1 = "w\<lparr>bucket := p, trace := trace w @ [Sleep (consume_delay (request_interval P) tslr)]\<rparr>"
      show ?thesis
      proof (cases "consume_delay (request_interval P) tslr < 0")
        case neg: True
        with acc Inr True mono upper show ?thesis by (auto simp add: Let_def)
      next
        case nonneg: False
        have eq: "consume_loop P tslr (now # ticks) w = consume_loop P tslr ticks ?w1"
          using acc Inr True nonneg by (simp add: Let_def)
        have b: "bucket ?w1 = p" by simp
        from Cons.IH [of ?w1] mono upper show ?thesis
          unfolding eq b by auto
      qed
    qed
  qed
qed

text \<open>
  What a run of the loop leaves behind: \<open>k\<close> sleeps of the same delay, then the token
  taken if the loop ended; and then the record is the one the last evaluation of the
  property produced, with one token less.
\<close>

lemma consume_loop_run:
  assumes "consume_loop P tslr ticks w = (r, w')"
  shows "\<exists>k\<le>length ticks.
           trace w' = trace w @ replicate k (Sleep (consume_delay (request_interval P) tslr))
                        @ (if r = Returned () then [TakeToken] else [])
         \<and> (\<forall>i<k. tokens (refreshed P (take (Suc i) ticks) (bucket w)) < 1)
         \<and> (r = Returned () \<longrightarrow> k < length ticks
              \<and> 1 \<le> tokens (refreshed P (take (Suc k) ticks) (bucket w))
              \<and> bucket w' = (refreshed P (take (Suc k) ticks) (bucket w))
                   \<lparr>tokens := tokens (refreshed P (take (Suc k) ticks) (bucket w)) - 1\<rparr>)"
  using assms
proof (induction ticks arbitrary: w)
  case Nil
  then show ?case by auto
next
  case (Cons now ticks)
  let ?d = "consume_delay (request_interval P) tslr"
  obtain a p where acc: "TokenBucket_tokens P now (bucket w) = (a, p)"
    by (cases "TokenBucket_tokens P now (bucket w)")
  have p: "refreshed P [now] (bucket w) = p"
    using acc by (simp add: refreshed_def)
  have res: "a = Inr (tokens p) \<or> a = Inl ZeroDivisionError"
    using tokens_accessor_result [of P now "bucket w"] acc by auto
  show ?case
  proof (cases a)
    case (Inl e)
    with acc Cons.prems have "r = Raised e" "w' = w\<lparr>bucket := p\<rparr>" by auto
    then show ?thesis by (intro exI [of _ 0]) simp
  next
    case (Inr n)
    with res have n: "n = tokens p" by simp
    show ?thesis
    proof (cases "n < 1")
      case False
      with acc Inr Cons.prems
      have "r = Returned ()"
        "w' = w\<lparr>bucket := p\<lparr>tokens := tokens p - 1\<rparr>, trace := trace w @ [TakeToken]\<rparr>"
        by auto
      with False n p show ?thesis by (intro exI [of _ 0]) simp
    next
      case True
      let ?w1 = "w\<lparr>bucket := p, trace := trace w @ [Sleep ?d]\<rparr>"
      show ?thesis
      proof (cases "?d < 0")
        case neg: True
        with acc Inr True Cons.prems have "r = Raised IOError" "w' = ?w1"
          by (auto simp add: Let_def)
        with True n p show ?thesis by (intro exI [of _ 1]) simp
      next
        case nonneg: False
        with acc Inr True Cons.prems have "consume_loop P tslr ticks ?w1 = (r, w')"
          by (simp add: Let_def)
        from Cons.IH [OF this] obtain k where k: "k \<le> length ticks"
          "trace w' = trace ?w1 @ replicate k (Sleep ?d) @ (if r = Returned () then [TakeToken] else [])"
          "\<forall>i<k. tokens (refreshed P (take (Suc i) ticks) (bucket ?w1)) < 1"
          "r = Returned () \<longrightarrow> k < length ticks
              \<and> 1 \<le> tokens (refreshed P (take (Suc k) ticks) (bucket ?w1))
              \<and> bucket w' = (refreshed P (take (Suc k) ticks) (bucket ?w1))
                   \<lparr>tokens := tokens (refreshed P (take (Suc k) ticks) (bucket ?w1)) - 1\<rparr>"
          by blast
        have r: "refreshed P (take (Suc (Suc j)) (now # ticks)) (bucket w)
                 = refreshed P (take (Suc j) ticks) (bucket ?w1)" for j
          using acc by (simp add: refreshed_Cons)
        have waits: "\<forall>i<Suc k. tokens (refreshed P (take (Suc i) (now # ticks)) (bucket w)) < 1"
        proof (intro allI impI)
          fix i assume i: "i < Suc k"
          show "tokens (refreshed P (take (Suc i) (now # ticks)) (bucket w)) < 1"
          proof (cases i)
            case 0
            with True n p show ?thesis by simp
          next
            case (Suc j)
            with i k(3) have "tokens (refreshed P (take (Suc j) ticks) (bucket ?w1)) < 1" by simp
            then have "tokens (refreshed P (take (Suc (Suc j)) (now # ticks)) (bucket w)) < 1"
              unfolding r .
            with Suc show ?thesis by simp
          qed
        qed
        have tr: "trace w' = trace w @ replicate (Suc k) (Sleep ?d)
                        @ (if r = Returned () then [TakeToken] else [])"
          using k(2) by simp
        have fin: "r = Returned () \<longrightarrow> Suc k < length (now # ticks)
              \<and> 1 \<le> tokens (refreshed P (take (Suc (Suc k)) (now # ticks)) (bucket w))
              \<and> bucket w' = (refreshed P (take (Suc (Suc k)) (now # ticks)) (bucket w))
                   \<lparr>tokens := tokens (refreshed P (take (Suc (Suc k)) (now # ticks)) (bucket w)) - 1\<rparr>"
          using k(4) unfolding r by simp
        have le: "Suc k \<le> length (now # ticks)" using k(1) by simp
        from le tr waits fin show ?thesis by blast
      qed
    qed
  qed
qed

text \<open>
  The loop ends: with a positive interval, a batch size of at least 1 and a count that is
  not negative, \<open>consume\<close> returns as soon as one of the clock readings is at least one
  interval past the persisted timestamp.
\<close>

lemma tokens_accessor_idle:
  assumes "0 < request_interval P" and "1 \<le> request_batch_size P" and "0 \<le> tokens p"
    and "TokenBucket_tokens P now p = (a, p')"
  shows "(\<exists>n. a = Inr n \<and> 1 \<le> n \<and> n = tokens p') \<or> (a = Inr (tokens p) \<and> tokens p < 1 \<and> p' = p)"
proof -
  have nn: "0 \<le> py_int ((now - update p) * (1 / request_interval P))" if "0 < now - update p"
    using that assms(1) by (simp add: py_int_def)
  show ?thesis
    using assms nn
    by (auto simp add: TokenBucket_tokens_def Let_def split: if_splits)
qed

lemma tokens_accessor_mints:
  assumes "0 < request_interval P" and "1 \<le> request_batch_size P" and "0 \<le> tokens p"
    and "request_interval P \<le> now - update p"
  shows "\<exists>n p'. TokenBucket_tokens P now p = (Inr n, p') \<and> 1 \<le> n"
proof -
  have "1 \<le> (now - update p) / request_interval P"
    using assms(1,4) by (simp add: le_divide_eq)
  then have "1 \<le> \<lfloor>(now - update p) / request_interval P\<rfloor>" by linarith
  moreover have "0 \<le> (now - update p) / request_interval P"
    using assms(1,4) by simp
  ultimately have m: "1 \<le> py_int ((now - update p) * (1 / request_interval P))"
    by (simp add: py_int_def)
  have pos: "0 < now - update p" using assms(1,4) by linarith
  show ?thesis
    using assms(1-3) m pos
    by (auto simp add: TokenBucket_tokens_def Let_def)
qed

lemma consume_loop_returns:
  assumes "0 < request_interval P" and "1 \<le> request_batch_size P" and "0 \<le> tokens (bucket w)"
    and "\<exists>now\<in>set ticks. request_interval P \<le> now - update (bucket w)"
  shows "fst (consume_loop P tslr ticks w) = Returned ()"
  using assms(3,4)
proof (induction ticks arbitrary: w)
  case Nil
  then show ?case by simp
next
  case (Cons now ticks)
  obtain a p where acc: "TokenBucket_tokens P now (bucket w) = (a, p)"
    by (cases "TokenBucket_tokens P now (bucket w)")
  from tokens_accessor_idle [OF assms(1,2) Cons.prems(1) acc]
  consider (token) n where "a = Inr n" "1 \<le> n"
    | (idle) "a = Inr (tokens (bucket w))" "tokens (bucket w) < 1" "p = bucket w"
    by blast
  then show ?case
  proof cases
    case token
    with acc show ?thesis by simp
  next
    case idle
    have later: "\<exists>t\<in>set ticks. request_interval P \<le> t - update (bucket w)"
    proof (cases "request_interval P \<le> now - update (bucket w)")
      case True
      from tokens_accessor_mints [OF assms(1,2) Cons.prems(1) True] acc idle
      show ?thesis by auto
    next
      case False
      with Cons.prems(2) show ?thesis by auto
    qed
    have d: "\<not> consume_delay (request_interval P) tslr < 0"
      using assms(1) by (simp add: consume_delay_def)
    let ?w1 = "w\<lparr>bucket := p, trace := trace w @ [Sleep (consume_delay (request_interval P) tslr)]\<rparr>"
    have eq: "consume_loop P tslr (now # ticks) w = consume_loop P tslr ticks ?w1"
      using acc idle d by (simp add: Let_def)
    have "fst (consume_loop P tslr ticks ?w1) = Returned ()"
      using Cons.IH [of ?w1] Cons.prems(1) later idle by simp
    with eq show ?thesis by simp
  qed
qed

lemma consume_returns_after_the_interval:
  assumes "0 < request_interval P" and "1 \<le> request_batch_size P" and "0 \<le> tokens (bucket w)"
    and "\<exists>now\<in>set ticks. request_interval P \<le> now - update (bucket w)"
  shows "fst (TokenBucket_consume P t0 ticks w) = Returned ()"
  using consume_loop_returns [OF assms] by (simp add: TokenBucket_consume_def)

text \<open>
  The loop, exactly, for a positive interval: it returns at the first evaluation of the
  property that yields at least one token, after one sleep for each evaluation before
  it, and leaves the record of that evaluation with one token less; when no evaluation
  yields a token it is still waiting, after one sleep for each.
\<close>

lemma tokens_accessor_value:
  assumes "0 < request_interval P"
  shows "\<exists>p'. TokenBucket_tokens P now p = (Inr (tokens p'), p')"
  using assms by (simp add: TokenBucket_tokens_def Let_def)

lemma consume_delay_nonneg:
  "0 < interval \<Longrightarrow> \<not> consume_delay interval tslr < 0"
  by (simp add: consume_delay_def)

lemma consume_loop_takes:
  assumes "0 < request_interval P"
    and "j < length ticks"
    and "\<forall>i<j. tokens (refreshed P (take (Suc i) ticks) (bucket w)) < 1"
    and "1 \<le> tokens (refreshed P (take (Suc j) ticks) (bucket w))"
  shows "consume_loop P tslr ticks w
         = (Returned (),
            w\<lparr>bucket := (refreshed P (take (Suc j) ticks) (bucket w))
                    \<lparr>tokens := tokens (refreshed P (take (Suc j) ticks) (bucket w)) - 1\<rparr>,
              trace := trace w @ replicate j (Sleep (consume_delay (request_interval P) tslr))
                         @ [TakeToken]\<rparr>)"
  using assms(2-4)
proof (induction j arbitrary: ticks w)
  case 0
  then obtain now rest where t: "ticks = now # rest" by (cases ticks) auto
  obtain p where acc: "TokenBucket_tokens P now (bucket w) = (Inr (tokens p), p)"
    using tokens_accessor_value [OF assms(1), of now "bucket w"] by blast
  have r: "refreshed P (take (Suc 0) ticks) (bucket w) = p"
    unfolding t using acc by (simp add: refreshed_def)
  from "0.prems"(3) have ge: "\<not> tokens p < 1" unfolding r by simp
  show ?case
    unfolding r unfolding t using acc ge by simp
next
  case (Suc j)
  then obtain now rest where t: "ticks = now # rest" by (cases ticks) auto
  let ?d = "consume_delay (request_interval P) tslr"
  obtain p where acc: "TokenBucket_tokens P now (bucket w) = (Inr (tokens p), p)"
    using tokens_accessor_value [OF assms(1), of now "bucket w"] by blast
  let ?w1 = "w\<lparr>bucket := p, trace := trace w @ [Sleep ?d]\<rparr>"
  have r: "refreshed P (take (Suc (Suc i)) ticks) (bucket w) = refreshed P (take (Suc i) rest) p" for i
    unfolding t using acc by (simp add: refreshed_def)
  have r0: "refreshed P (take (Suc 0) ticks) (bucket w) = p"
    unfolding t using acc by (simp add: refreshed_def)
  from Suc.prems(2) have "tokens (refreshed P (take (Suc 0) ticks) (bucket w)) < 1" by blast
  then have lt: "tokens p < 1" unfolding r0 .
  have step: "consume_loop P tslr ticks w = consume_loop P tslr rest ?w1"
    unfolding t using acc lt consume_delay_nonneg [OF assms(1), of tslr] by (simp add: Let_def)
  have a: "j < length rest" using Suc.prems(1) t by simp
  have b: "\<forall>i<j. tokens (refreshed P (take (Suc i) rest) (bucket ?w1)) < 1"
  proof (intro allI impI)
    fix i assume "i < j"
    then have "tokens (refreshed P (take (Suc (Suc i)) ticks) (bucket w)) < 1"
      using Suc.prems(2) by simp
    then show "tokens (refreshed P (take (Suc i) rest) (bucket ?w1)) < 1"
      unfolding r by simp
  qed
  have c: "1 \<le> tokens (refreshed P (take (Suc j) rest) (bucket ?w1))"
    using Suc.prems(3) unfolding r by simp
  show ?case
    unfolding step Suc.IH [OF a b c] r by simp
qed

lemma consume_loop_waits:
  assumes "0 < request_interval P"
    and "\<forall>i<length ticks. tokens (refreshed P (take (Suc i) ticks) (bucket w)) < 1"
  shows "consume_loop P tslr ticks w
         = (Blocked,
            w\<lparr>bucket := refreshed P ticks (bucket w),
              trace := trace w @ replicate (length ticks)
                         (Sleep (consume_delay (request_interval P) tslr))\<rparr>)"
  using assms(2)
proof (induction ticks arbitrary: w)
  case Nil
  show ?case by (simp add: refreshed_def)
next
  case (Cons now rest)
  let ?d = "consume_delay (request_interval P) tslr"
  obtain p where acc: "TokenBucket_tokens P now (bucket w) = (Inr (tokens p), p)"
    using tokens_accessor_value [OF assms(1), of now "bucket w"] by blast
  let ?w1 = "w\<lparr>bucket := p, trace := trace w @ [Sleep ?d]\<rparr>"
  have r: "refreshed P (take (Suc (Suc i)) (now # rest)) (bucket w) = refreshed P (take (Suc i) rest) p" for i
    using acc by (simp add: refreshed_def)
  from Cons.prems have "tokens (refreshed P (take (Suc 0) (now # rest)) (bucket w)) < 1" by blast
  then have lt: "tokens p < 1" using acc by (simp add: refreshed_def)
  have step: "consume_loop P tslr (now # rest) w = consume_loop P tslr rest ?w1"
    using acc lt consume_delay_nonneg [OF assms(1), of tslr] by (simp add: Let_def)
  have b: "\<forall>i<length rest. tokens (refreshed P (take (Suc i) rest) (bucket ?w1)) < 1"
  proof (intro allI impI)
    fix i assume "i < length rest"
    then have "tokens (refreshed P (take (Suc (Suc i)) (now # rest)) (bucket w)) < 1"
      using Cons.prems by simp
    then show "tokens (refreshed P (take (Suc i) rest) (bucket ?w1)) < 1"
      unfolding r by simp
  qed
  show ?case
    unfolding step Cons.IH [OF b] using acc by (simp add: refreshed_Cons replicate_append_same)
qed

subsection \<open>Sequences of operations\<close>

lemma apply_op_bounds:
  assumes "0 \<le> request_interval P"
  shows "(0 \<le> tokens (bucket w) \<longrightarrow> 0 \<le> tokens (bucket (apply_op P op w)))
       \<and> (tokens (bucket w) \<le> request_batch_size P \<longrightarrow>
            tokens (bucket (apply_op P op w)) \<le> request_batch_size P)"
proof (cases op)
  case (Consume t0 ticks)
  then show ?thesis
    using consume_loop_bounds [OF assms, of w "t0 - update (bucket w)" ticks]
    by (simp add: apply_op_def TokenBucket_consume_def)
next
  case (ReadTokens now)
  then show ?thesis
    using tokens_accessor_mono [OF assms, of "bucket w" now]
      tokens_accessor_upper [of "bucket w" P now]
    by (auto simp add: apply_op_def)
qed

lemma run_ops_bounds:
  assumes "0 \<le> request_interval P"
    and "0 \<le> tokens (bucket w)" and "tokens (bucket w) \<le> request_batch_size P"
  shows "0 \<le> tokens (bucket (run_ops P ops w))
       \<and> tokens (bucket (run_ops P ops w)) \<le> request_batch_size P"
  using assms(2,3)
proof (induction ops arbitrary: w)
  case Nil
  then show ?case by (simp add: run_ops_def)
next
  case (Cons op ops)
  have "run_ops P (op # ops) w = run_ops P ops (apply_op P op w)"
    by (simp add: run_ops_def)
  with Cons.IH [of "apply_op P op w"] apply_op_bounds [OF assms(1), of w op] Cons.prems
  show ?case by simp
qed

lemma apply_op_decrease:
  assumes "0 \<le> request_interval P"
    and "tokens (bucket (apply_op P op w)) < tokens (bucket w)"
  shows "(\<exists>t0 ticks. op = Consume t0 ticks \<and> fst (TokenBucket_consume P t0 ticks w) = Returned ())
       \<and> tokens (bucket (apply_op P op w)) = tokens (bucket w) - 1"
proof (cases op)
  case (Consume t0 ticks)
  with assms(2) show ?thesis
    using consume_loop_bounds [OF assms(1), of w "t0 - update (bucket w)" ticks]
    by (auto simp add: apply_op_def TokenBucket_consume_def)
next
  case (ReadTokens now)
  with assms(2) show ?thesis
    using tokens_accessor_mono [OF assms(1), of "bucket w" now]
    by (simp add: apply_op_def)
qed

text \<open>
  Claim C1. Let the configured interval be non-negative and the persisted count start
  within \<open>[0, request_batch_size]\<close>. After every sequence of calls of \<open>consume\<close> and
  reads of \<open>tokens\<close>, under any clock readings and also when a \<open>consume\<close> is still
  blocked or has raised, the count is within \<open>[0, request_batch_size]\<close>: it is never
  negative and minting never lifts it above the batch size. A further operation lowers
  the count only if it is a \<open>consume\<close> that returns, and then by exactly one.
\<close>

theorem token_count_stays_in_range:
  assumes "0 \<le> request_interval P"
    and "0 \<le> tokens (bucket w)" and "tokens (bucket w) \<le> request_batch_size P"
  shows "0 \<le> tokens (bucket (run_ops P ops w))
       \<and> tokens (bucket (run_ops P ops w)) \<le> request_batch_size P
       \<and> (\<forall>op. tokens (bucket (apply_op P op (run_ops P ops w))) < tokens (bucket (run_ops P ops w)) \<longrightarrow>
              (\<exists>t0 ticks. op = Consume t0 ticks
                  \<and> fst (TokenBucket_consume P t0 ticks (run_ops P ops w)) = Returned ())
              \<and> tokens (bucket (apply_op P op (run_ops P ops w)))
                  = tokens (bucket (run_ops P ops w)) - 1)"
  using run_ops_bounds [OF assms] apply_op_decrease [OF assms(1)] by blast

text \<open>
  An instance: batch size 2, one token per second, an empty bucket stamped at time 0. A
  read at time 5 fills the bucket, two calls of \<open>consume\<close> empty it, a third one is still
  waiting at time 5.5, and a read at time 6 mints one token.
\<close>

theorem token_count_stays_in_range_witness:
  "run_ops \<lparr>request_interval = 1, request_batch_size = 2, retries = 2\<rparr>
     [ReadTokens 5, Consume 5 [5], Consume 5 [5], Consume 5 [5, 11 / 2], ReadTokens 6]
     \<lparr>bucket = \<lparr>tokens = 0, update = 0\<rparr>, trace = []\<rparr>
   = \<lparr>bucket = \<lparr>tokens = 1, update = 6\<rparr>,
      trace = [TakeToken, TakeToken, Sleep 1, Sleep 1]\<rparr>
   \<and> 0 \<le> tokens (bucket (run_ops \<lparr>request_interval = 1, request_batch_size = 2, retries = 2\<rparr>
     [ReadTokens 5, Consume 5 [5], Consume 5 [5], Consume 5 [5, 11 / 2], ReadTokens 6]
     \<lparr>bucket = \<lparr>tokens = 0, update = 0\<rparr>, trace = []\<rparr>))
   \<and> tokens (bucket (run_ops \<lparr>request_interval = 1, request_batch_size = 2, retries = 2\<rparr>
     [ReadTokens 5, Consume 5 [5], Consume 5 [5], Consume 5 [5, 11 / 2], ReadTokens 6]
     \<lparr>bucket = \<lparr>tokens = 0, update = 0\<rparr>, trace = []\<rparr>)) \<le> 2"
proof -
  let ?P = "\<lparr>request_interval = 1, request_batch_size = 2, retries = 2\<rparr>"
  let ?w = "\<lparr>bucket = \<lparr>tokens = 0, update = 0\<rparr>, trace = []\<rparr>"
  let ?ops = "[ReadTokens 5, Consume 5 [5], Consume 5 [5], Consume 5 [5, 11 / 2], ReadTokens 6]"
  have h1: "0 \<le> request_interval ?P" by simp
  have h2: "0 \<le> tokens (bucket ?w)" by simp
  have h3: "tokens (bucket ?w) \<le> request_batch_size ?P" by simp
  have run: "run_ops ?P ?ops ?w
    = \<lparr>bucket = \<lparr>tokens = 1, update = 6\<rparr>, trace = [TakeToken, TakeToken, Sleep 1, Sleep 1]\<rparr>"
    by (simp add: run_ops_def apply_op_def TokenBucket_consume_def TokenBucket_tokens_def
        consume_delay_def py_int_def Let_def)
  from token_count_stays_in_range [of ?P ?w ?ops, OF h1 h2 h3]
  have "0 \<le> tokens (bucket (run_ops ?P ?ops ?w)) \<and> tokens (bucket (run_ops ?P ?ops ?w)) \<le> request_batch_size ?P"
    by blast
  with run show ?thesis by simp
qed

text \<open>
  Claim C4, as the code has it. Let \<open>time_since_last_request\<close> be the clock at the entry
  of \<open>consume\<close> minus the persisted timestamp, and let \<open>delay\<close> be
  \<open>interval - time_since_last_request\<close> when \<open>time_since_last_request < interval\<close> and
  \<open>interval\<close> otherwise; this is not \<open>max (interval - time_since_last_request) interval\<close>.
  For a positive interval: if the first \<open>j\<close> evaluations of \<open>tokens\<close> yield less than one
  token and the next one yields at least one, \<open>consume\<close> returns, having slept \<open>j\<close> times,
  each time for \<open>delay\<close>, and then taken one token: the persisted count is the one that
  evaluation left, less exactly one. If no evaluation yields a token, \<open>consume\<close> is still
  waiting, having slept \<open>delay\<close> after each. For any interval and any outcome, every
  sleep of the call lasts \<open>delay\<close>, there is one for each evaluation that yields less than
  one token, and the count is lowered, by exactly one, only when the call returns.
\<close>

theorem consume_sleeps_then_takes_one_token:
  "(let time_since_last_request = start - update (bucket w);
        interval = request_interval P;
        delay = (if interval > time_since_last_request then interval - time_since_last_request
                 else interval)
    in (0 < interval \<and> j < length ticks
          \<and> (\<forall>i<j. tokens (refreshed P (take (Suc i) ticks) (bucket w)) < 1)
          \<and> 1 \<le> tokens (refreshed P (take (Suc j) ticks) (bucket w))
        \<longrightarrow> TokenBucket_consume P start ticks w
              = (Returned (),
                 w\<lparr>bucket := (refreshed P (take (Suc j) ticks) (bucket w))
                         \<lparr>tokens := tokens (refreshed P (take (Suc j) ticks) (bucket w)) - 1\<rparr>,
                   trace := trace w @ replicate j (Sleep delay) @ [TakeToken]\<rparr>))
     \<and> (0 < interval
          \<and> (\<forall>i<length ticks. tokens (refreshed P (take (Suc i) ticks) (bucket w)) < 1)
        \<longrightarrow> TokenBucket_consume P start ticks w
              = (Blocked,
                 w\<lparr>bucket := refreshed P ticks (bucket w),
                   trace := trace w @ replicate (length ticks) (Sleep delay)\<rparr>))
     \<and> (TokenBucket_consume P start ticks w = (r, w')
        \<longrightarrow> (\<exists>k\<le>length ticks.
               trace w' = trace w @ replicate k (Sleep delay)
                            @ (if r = Returned () then [TakeToken] else [])
             \<and> (\<forall>i<k. tokens (refreshed P (take (Suc i) ticks) (bucket w)) < 1)
             \<and> (r = Returned () \<longrightarrow> k < length ticks
                  \<and> 1 \<le> tokens (refreshed P (take (Suc k) ticks) (bucket w))
                  \<and> bucket w' = (refreshed P (take (Suc k) ticks) (bucket w))
                       \<lparr>tokens := tokens (refreshed P (take (Suc k) ticks) (bucket w)) - 1\<rparr>))))"
proof -
  let ?tslr = "start - update (bucket w)"
  let ?d = "if request_interval P > ?tslr then request_interval P - ?tslr else request_interval P"
  have d: "consume_delay (request_interval P) ?tslr = ?d"
    by (simp add: consume_delay_def)
  have takes: "TokenBucket_consume P start ticks w
              = (Returned (),
                 w\<lparr>bucket := (refreshed P (take (Suc j) ticks) (bucket w))
                         \<lparr>tokens := tokens (refreshed P (take (Suc j) ticks) (bucket w)) - 1\<rparr>,
                   trace := trace w @ replicate j (Sleep ?d) @ [TakeToken]\<rparr>)"
    if "0 < request_interval P" "j < length ticks"
      "\<forall>i<j. tokens (refreshed P (take (Suc i) ticks) (bucket w)) < 1"
      "1 \<le> tokens (refreshed P (take (Suc j) ticks) (bucket w))"
    using consume_loop_takes [OF that, of ?tslr] unfolding d
    by (simp add: TokenBucket_consume_def)
  have waits: "TokenBucket_consume P start ticks w
              = (Blocked,
                 w\<lparr>bucket := refreshed P ticks (bucket w),
                   trace := trace w @ replicate (length ticks) (Sleep ?d)\<rparr>)"
    if "0 < request_interval P"
      "\<forall>i<length ticks. tokens (refreshed P (take (Suc i) ticks) (bucket w)) < 1"
    using consume_loop_waits [OF that, of ?tslr] unfolding d
    by (simp add: TokenBucket_consume_def)
  have any: "\<exists>k\<le>length ticks.
               trace w' = trace w @ replicate k (Sleep ?d)
                            @ (if r = Returned () then [TakeToken] else [])
             \<and> (\<forall>i<k. tokens (refreshed P (take (Suc i) ticks) (bucket w)) < 1)
             \<and> (r = Returned () \<longrightarrow> k < length ticks
                  \<and> 1 \<le> tokens (refreshed P (take (Suc k) ticks) (bucket w))
                  \<and> bucket w' = (refreshed P (take (Suc k) ticks) (bucket w))
                       \<lparr>tokens := tokens (refreshed P (take (Suc k) ticks) (bucket w)) - 1\<rparr>)"
    if "TokenBucket_consume P start ticks w = (r, w')"
    using that consume_loop_run [of P ?tslr ticks w r w'] unfolding d
    by (simp add: TokenBucket_consume_def)
  show ?thesis
    unfolding Let_def using takes waits any by blast
qed

text \<open>
  Three instances, with interval 10 and an empty bucket stamped at time 0. Entry at
  time 4: the evaluation at time 4 mints nothing, the call sleeps \<open>10 - 4 = 6\<close>, the
  evaluation at time 10 mints a token and the call takes it. Entry at time 20 with a
  clock that is then set back: the evaluation at time 5 mints nothing, the call sleeps
  10, the interval, and takes the token minted at time 15. The same entry with
  evaluations at times 5 and 8: the call has slept 10 twice and is still waiting.
\<close>

theorem consume_sleeps_then_takes_one_token_witness:
  "TokenBucket_consume \<lparr>request_interval = 10, request_batch_size = 1, retries = 2\<rparr> 4 [4, 10]
     \<lparr>bucket = \<lparr>tokens = 0, update = 0\<rparr>, trace = []\<rparr>
   = (Returned (), \<lparr>bucket = \<lparr>tokens = 0, update = 10\<rparr>, trace = [Sleep 6, TakeToken]\<rparr>)
   \<and> TokenBucket_consume \<lparr>request_interval = 10, request_batch_size = 1, retries = 2\<rparr> 20 [5, 15]
     \<lparr>bucket = \<lparr>tokens = 0, update = 0\<rparr>, trace = []\<rparr>
   = (Returned (), \<lparr>bucket = \<lparr>tokens = 0, update = 15\<rparr>, trace = [Sleep 10, TakeToken]\<rparr>)
   \<and> TokenBucket_consume \<lparr>request_interval = 10, request_batch_size = 1, retries = 2\<rparr> 20 [5, 8]
     \<lparr>bucket = \<lparr>tokens = 0, update = 0\<rparr>, trace = []\<rparr>
   = (Blocked, \<lparr>bucket = \<lparr>tokens = 0, update = 0\<rparr>, trace = [Sleep 10, Sleep 10]\<rparr>)"
proof -
  let ?P = "\<lparr>request_interval = 10, request_batch_size = 1, retries = 2\<rparr>"
  let ?w = "\<lparr>bucket = \<lparr>tokens = 0, update = 0\<rparr>, trace = []\<rparr>"
  note ev = refreshed_def TokenBucket_tokens_def py_int_def Let_def
  have a: "0 < request_interval ?P \<and> (1::nat) < length [4, 10 :: real]
      \<and> (\<forall>i<1. tokens (refreshed ?P (take (Suc i) [4, 10]) (bucket ?w)) < 1)
      \<and> 1 \<le> tokens (refreshed ?P (take (Suc 1) [4, 10]) (bucket ?w))"
    by (simp add: ev)
  have b: "0 < request_interval ?P \<and> (1::nat) < length [5, 15 :: real]
      \<and> (\<forall>i<1. tokens (refreshed ?P (take (Suc i) [5, 15]) (bucket ?w)) < 1)
      \<and> 1 \<le> tokens (refreshed ?P (take (Suc 1) [5, 15]) (bucket ?w))"
    by (simp add: ev)
  have c: "0 < request_interval ?P
      \<and> (\<forall>i<length [5, 8 :: real]. tokens (refreshed ?P (take (Suc i) [5, 8]) (bucket ?w)) < 1)"
    by (simp add: ev less_Suc_eq)
  have 1: "TokenBucket_consume ?P 4 [4, 10] ?w
     = (Returned (), \<lparr>bucket = \<lparr>tokens = 0, update = 10\<rparr>, trace = [Sleep 6, TakeToken]\<rparr>)"
    using consume_sleeps_then_takes_one_token
      [where P = ?P and start = 4 and ticks = "[4, 10]" and w = ?w and j = 1] a
    by (simp add: ev)
  have 2: "TokenBucket_consume ?P 20 [5, 15] ?w
     = (Returned (), \<lparr>bucket = \<lparr>tokens = 0, update = 15\<rparr>, trace = [Sleep 10, TakeToken]\<rparr>)"
    using consume_sleeps_then_takes_one_token
      [where P = ?P and start = 20 and ticks = "[5, 15]" and w = ?w and j = 1] b
    by (simp add: ev)
  have 3: "TokenBucket_consume ?P 20 [5, 8] ?w
     = (Blocked, \<lparr>bucket = \<lparr>tokens = 0, update = 0\<rparr>, trace = [Sleep 10, Sleep 10]\<rparr>)"
    using consume_sleeps_then_takes_one_token
      [where P = ?P and start = 20 and ticks = "[5, 8]" and w = ?w] c
    by (simp add: ev less_Suc_eq)
  from 1 2 3 show ?thesis by blast
qed

text \<open>
  The call entered at time 4, followed up to its first sleep: it sleeps 6, while
  \<open>max (interval - time_since_last_request) interval\<close> is 10.
\<close>

theorem consume_delay_is_not_the_maximum:
  "TokenBucket_consume \<lparr>request_interval = 10, request_batch_size = 1, retries = 2\<rparr> 4 [4]
     \<lparr>bucket = \<lparr>tokens = 0, update = 0\<rparr>, trace = []\<rparr>
   = (Blocked, \<lparr>bucket = \<lparr>tokens = 0, update = 0\<rparr>, trace = [Sleep 6]\<rparr>)
   \<and> max (10 - (4 - 0)) 10 \<noteq> (6::real)"
  by (simp add: TokenBucket_consume_def TokenBucket_tokens_def consume_delay_def py_int_def Let_def)

section \<open>Properties of the retry wrapper\<close>

subsection \<open>Traces\<close>

lemma calls_append: "calls (xs @ ys) = calls xs @ calls ys"
  by (induction xs rule: calls.induct) simp_all

lemma calls_replicate_Sleep: "calls (replicate k (Sleep d)) = []"
  by (induction k) simp_all

lemma tokens_taken_append: "tokens_taken (xs @ ys) = tokens_taken xs + tokens_taken ys"
  by (simp add: tokens_taken_def)

lemma tokens_taken_replicate_Sleep: "tokens_taken (replicate k (Sleep d)) = 0"
  by (simp add: tokens_taken_def)

lemma consume_events:
  assumes "TokenBucket_consume P t0 ticks w = (r, w')"
  shows "calls (trace w') = calls (trace w)"
    and "tokens_taken (trace w') = tokens_taken (trace w) + (if r = Returned () then 1 else 0)"
    and "prefix (trace w) (trace w')"
proof -
  from consume_loop_run [of P "t0 - update (bucket w)" ticks w r w'] assms
  obtain k where k: "trace w' = trace w @ replicate k (Sleep (consume_delay (request_interval P) (t0 - update (bucket w))))
                        @ (if r = Returned () then [TakeToken] else [])"
    by (auto simp add: TokenBucket_consume_def)
  show "calls (trace w') = calls (trace w)"
    unfolding k by (simp add: calls_append calls_replicate_Sleep)
  show "tokens_taken (trace w') = tokens_taken (trace w) + (if r = Returned () then 1 else 0)"
    unfolding k by (simp add: tokens_taken_append tokens_taken_replicate_Sleep) (simp add: tokens_taken_def)
  show "prefix (trace w) (trace w')"
    unfolding k by simp
qed

lemma consume_returned_takes:
  assumes "TokenBucket_consume P t0 ticks w = (Returned (), u)"
  shows "\<exists>es. trace u = es @ [TakeToken]"
proof -
  from consume_loop_run [of P "t0 - update (bucket w)" ticks w "Returned ()" u] assms
  obtain k where "trace u = trace w @ replicate k (Sleep (consume_delay (request_interval P) (t0 - update (bucket w)))) @ [TakeToken]"
    by (auto simp add: TokenBucket_consume_def)
  then have "trace u = (trace w @ replicate k (Sleep (consume_delay (request_interval P) (t0 - update (bucket w))))) @ [TakeToken]"
    by simp
  then show ?thesis by blast
qed

subsection \<open>One pass of the loop\<close>

lemma except_rate_limit:
  "rate_limit_class e \<Longrightarrow> except_clauses P k rnd e w = (Raised e, w)"
  by (cases e) (simp_all add: except_clauses_def handle_rate_limit_def)

lemma except_transient:
  "instance_of_Exception e \<Longrightarrow> \<not> rate_limit_class e \<Longrightarrow>
   except_clauses P k rnd e w = handle_exception P k rnd e w"
  by (cases e) (simp_all add: except_clauses_def)

lemma except_clauses_events:
  "\<exists>s. trace (snd (except_clauses P k rnd e w)) = trace w @ s \<and> calls s = [] \<and> tokens_taken s = 0"
proof -
  have h: "\<exists>s. trace (snd (handle_exception P k rnd e w)) = trace w @ s \<and> calls s = [] \<and> tokens_taken s = 0"
    by (simp add: handle_exception_def tokens_taken_def)
  show ?thesis
    using h by (cases e) (simp_all add: except_clauses_def handle_rate_limit_def tokens_taken_def)
qed

lemma retry_step_rate_limit:
  assumes "TokenBucket_consume P (clock_at_entry (env k)) (clock_in_loop (env k)) w = (Returned (), u)"
    and "target_result (env k) = Inl e" and "rate_limit_class e"
  shows "retry_loop P env (k # rest) w = (Raised e, u\<lparr>trace := trace u @ [Call k]\<rparr>)"
  using assms by (simp add: except_rate_limit)

lemma retry_step_last:
  assumes "TokenBucket_consume P (clock_at_entry (env k)) (clock_in_loop (env k)) w = (Returned (), u)"
    and "target_result (env k) = Inl e" and "instance_of_Exception e" and "\<not> rate_limit_class e"
    and "retries P \<le> k"
  shows "retry_loop P env (k # rest) w = (Raised e, u\<lparr>trace := trace u @ [Call k]\<rparr>)"
  using assms by (simp add: except_transient handle_exception_def)

lemma retry_step_transient:
  assumes "TokenBucket_consume P (clock_at_entry (env k)) (clock_in_loop (env k)) w = (Returned (), u)"
    and "target_result (env k) = Inl e" and "instance_of_Exception e" and "\<not> rate_limit_class e"
    and "k < retries P"
  shows "retry_loop P env (k # rest) w
         = retry_loop P env rest (u\<lparr>trace := trace u @ [Call k, Sleep (random_value (env k) / 2 + 1 / 10)]\<rparr>)"
  using assms by (simp add: except_transient handle_exception_def)

lemma retry_step_value:
  assumes "TokenBucket_consume P (clock_at_entry (env k)) (clock_in_loop (env k)) w = (Returned (), u)"
    and "target_result (env k) = Inr v"
  shows "retry_loop P env (k # rest) w = (Returned v, u\<lparr>trace := trace u @ [Call k]\<rparr>)"
  using assms by simp

subsection \<open>The loop\<close>

text \<open>
  Whatever the surroundings do, the loop makes its attempts in the order of the list,
  takes one token for each, and only appends to the trace.
\<close>

lemma retry_loop_attempts:
  "\<exists>m\<le>length ks.
      calls (trace (snd (retry_loop P env ks w))) = calls (trace w) @ take m ks
    \<and> tokens_taken (trace (snd (retry_loop P env ks w))) = tokens_taken (trace w) + m
    \<and> prefix (trace w) (trace (snd (retry_loop P env ks w)))"
proof (induction ks arbitrary: w)
  case Nil
  show ?case by simp
next
  case (Cons k rest)
  obtain r u where c: "TokenBucket_consume P (clock_at_entry (env k)) (clock_in_loop (env k)) w = (r, u)"
    by (cases "TokenBucket_consume P (clock_at_entry (env k)) (clock_in_loop (env k)) w")
  note ev = consume_events [OF c]
  show ?case
  proof (cases r)
    case (Raised e)
    with c ev show ?thesis by (intro exI [of _ 0]) simp
  next
    case Blocked
    with c ev show ?thesis by (intro exI [of _ 0]) simp
  next
    case (Returned x)
    let ?w2 = "u\<lparr>trace := trace u @ [Call k]\<rparr>"
    have w2: "calls (trace ?w2) = calls (trace w) @ [k]"
      "tokens_taken (trace ?w2) = tokens_taken (trace w) + 1"
      "prefix (trace w) (trace ?w2)"
      using ev Returned by (simp_all add: calls_append tokens_taken_append) (simp add: tokens_taken_def)
    show ?thesis
    proof (cases "target_result (env k)")
      case (Inr v)
      with c Returned have "retry_loop P env (k # rest) w = (Returned v, ?w2)" by simp
      with w2 show ?thesis by (intro exI [of _ 1]) simp
    next
      case (Inl e)
      obtain r3 w3 where x: "except_clauses P k (random_value (env k)) e ?w2 = (r3, w3)"
        by (cases "except_clauses P k (random_value (env k)) e ?w2")
      from except_clauses_events [of P k "random_value (env k)" e ?w2] x
      obtain s where s: "trace w3 = trace ?w2 @ s" "calls s = []" "tokens_taken s = 0" by auto
      have w3: "calls (trace w3) = calls (trace w) @ [k]"
        "tokens_taken (trace w3) = tokens_taken (trace w) + 1"
        "prefix (trace w) (trace w3)"
        using w2 s by (simp_all only: calls_append tokens_taken_append append_Nil2 add_0_right prefix_prefix)
      show ?thesis
      proof (cases r3)
        case (Raised e')
        with c Returned Inl x have "retry_loop P env (k # rest) w = (Raised e', w3)" by simp
        with w3 show ?thesis by (intro exI [of _ 1]) simp
      next
        case Blocked
        with c Returned Inl x have "retry_loop P env (k # rest) w = (Blocked, w3)" by simp
        with w3 show ?thesis by (intro exI [of _ 1]) simp
      next
        case (Returned y)
        with c \<open>r = Returned x\<close> Inl x
        have eq: "retry_loop P env (k # rest) w = retry_loop P env rest w3" by simp
        from Cons.IH [of w3] obtain m where m: "m \<le> length rest"
          "calls (trace (snd (retry_loop P env rest w3))) = calls (trace w3) @ take m rest"
          "tokens_taken (trace (snd (retry_loop P env rest w3))) = tokens_taken (trace w3) + m"
          "prefix (trace w3) (trace (snd (retry_loop P env rest w3)))"
          by blast
        show ?thesis
          unfolding eq using m w3
          by (intro exI [of _ "Suc m"]) (auto intro: prefix_order.trans)
      qed
    qed
  qed
qed

lemma retry_loop_extends:
  "prefix (trace w) (trace (snd (retry_loop P env ks w)))"
  using retry_loop_attempts [of ks P env w] by blast

lemma retry_function_attempt_bound:
  "length (calls (trace (snd (retry_function P env w)))) \<le> length (calls (trace w)) + nat (retries P)"
proof -
  from retry_loop_attempts [of "[1..retries P]" P env w]
  obtain m where "m \<le> length [1..retries P]"
    "calls (trace (snd (retry_loop P env [1..retries P] w))) = calls (trace w) @ take m [1..retries P]"
    by blast
  then show ?thesis by (simp add: retry_function_def)
qed

text \<open>
  When every attempt from \<open>j\<close> on fails with an exception of \<open>Exception\<close> outside the
  rate-limit class and every \<open>consume\<close> returns, \<open>ws k\<close> being the world in which attempt
  \<open>k\<close> is made, the loop makes all the attempts and re-raises the last exception.
\<close>

lemma retry_loop_exhausts:
  assumes "j \<le> retries P"
    and "\<forall>k\<in>{j..retries P}. target_result (env k) = Inl (errs k)
            \<and> instance_of_Exception (errs k) \<and> \<not> rate_limit_class (errs k)"
    and "TokenBucket_consume P (clock_at_entry (env j)) (clock_in_loop (env j)) w = (Returned (), ws j)"
    and "\<forall>k\<in>{j..<retries P}.
            TokenBucket_consume P (clock_at_entry (env (k + 1))) (clock_in_loop (env (k + 1)))
              ((ws k)\<lparr>trace := trace (ws k) @ [Call k, Sleep (random_value (env k) / 2 + 1 / 10)]\<rparr>)
            = (Returned (), ws (k + 1))"
  shows "retry_loop P env [j..retries P] w
           = (Raised (errs (retries P)),
              (ws (retries P))\<lparr>trace := trace (ws (retries P)) @ [Call (retries P)]\<rparr>)
       \<and> calls (trace (snd (retry_loop P env [j..retries P] w))) = calls (trace w) @ [j..retries P]
       \<and> tokens_taken (trace (snd (retry_loop P env [j..retries P] w)))
           = tokens_taken (trace w) + nat (retries P - j + 1)
       \<and> (\<forall>k\<in>{j..<retries P}.
            prefix (trace (ws k) @ [Call k, Sleep (random_value (env k) / 2 + 1 / 10)])
              (trace (snd (retry_loop P env [j..retries P] w))))"
  using assms
proof (induction "nat (retries P - j)" arbitrary: j w)
  case 0
  then have j: "j = retries P" by simp
  have l: "[j..retries P] = [j]" using j by simp
  from "0.prems"(2) j have e: "target_result (env j) = Inl (errs j)"
    "instance_of_Exception (errs j)" "\<not> rate_limit_class (errs j)" by auto
  have eq: "retry_loop P env [j] w = (Raised (errs j), (ws j)\<lparr>trace := trace (ws j) @ [Call j]\<rparr>)"
    using retry_step_last [where P = P and env = env and k = j and w = w and u = "ws j"
        and e = "errs j" and rest = "[]"] "0.prems"(3) e j by simp
  note ev = consume_events [OF "0.prems"(3)]
  show ?case
    unfolding l eq using ev j
    by (simp add: calls_append tokens_taken_append) (simp add: tokens_taken_def)
next
  case (Suc n)
  then have lt: "j < retries P" by simp
  have l: "[j..retries P] = j # [j + 1..retries P]"
    using lt by (simp add: upto_rec1)
  from Suc.prems(2) lt have e: "target_result (env j) = Inl (errs j)"
    "instance_of_Exception (errs j)" "\<not> rate_limit_class (errs j)" by auto
  let ?w1 = "(ws j)\<lparr>trace := trace (ws j) @ [Call j, Sleep (random_value (env j) / 2 + 1 / 10)]\<rparr>"
  have eq: "retry_loop P env [j..retries P] w = retry_loop P env [j + 1..retries P] ?w1"
    unfolding l
    using retry_step_transient [where P = P and env = env and k = j and w = w and u = "ws j"
        and e = "errs j" and rest = "[j + 1..retries P]"] Suc.prems(3) e lt by simp
  have n: "n = nat (retries P - (j + 1))" using Suc.hyps(2) by simp
  have le: "j + 1 \<le> retries P" using lt by simp
  have errs': "\<forall>k\<in>{j + 1..retries P}. target_result (env k) = Inl (errs k)
            \<and> instance_of_Exception (errs k) \<and> \<not> rate_limit_class (errs k)"
    using Suc.prems(2) by simp
  have first': "TokenBucket_consume P (clock_at_entry (env (j + 1))) (clock_in_loop (env (j + 1))) ?w1
      = (Returned (), ws (j + 1))"
    using Suc.prems(4) lt by simp
  have chain': "\<forall>k\<in>{j + 1..<retries P}.
            TokenBucket_consume P (clock_at_entry (env (k + 1))) (clock_in_loop (env (k + 1)))
              ((ws k)\<lparr>trace := trace (ws k) @ [Call k, Sleep (random_value (env k) / 2 + 1 / 10)]\<rparr>)
            = (Returned (), ws (k + 1))"
    using Suc.prems(4) by simp
  let ?R = "retry_loop P env [j + 1..retries P] ?w1"
  note IH = Suc.hyps(1) [OF n le errs' first' chain']
  have i1: "?R = (Raised (errs (retries P)),
              (ws (retries P))\<lparr>trace := trace (ws (retries P)) @ [Call (retries P)]\<rparr>)"
    using IH by blast
  have i2: "calls (trace (snd ?R)) = calls (trace ?w1) @ [j + 1..retries P]"
    using IH by blast
  have i3: "tokens_taken (trace (snd ?R)) = tokens_taken (trace ?w1) + nat (retries P - (j + 1) + 1)"
    using IH by blast
  have i4: "\<forall>k\<in>{j + 1..<retries P}.
            prefix (trace (ws k) @ [Call k, Sleep (random_value (env k) / 2 + 1 / 10)]) (trace (snd ?R))"
    using IH by blast
  note ev = consume_events [OF Suc.prems(3)]
  have c1: "calls (trace ?w1) = calls (trace w) @ [j]"
    using ev by (simp add: calls_append)
  have t1: "tokens_taken (trace ?w1) = tokens_taken (trace w) + 1"
    using ev by (simp add: tokens_taken_append) (simp add: tokens_taken_def)
  have p1: "prefix (trace (ws j) @ [Call j, Sleep (random_value (env j) / 2 + 1 / 10)]) (trace (snd ?R))"
    using retry_loop_extends [of ?w1 P env "[j + 1..retries P]"] by simp
  have nat_eq: "nat (retries P - j + 1) = Suc (nat (retries P - (j + 1) + 1))"
    using lt by simp
  have split: "{j..<retries P} = insert j {j + 1..<retries P}"
    using lt by auto
  have g2: "calls (trace (snd ?R)) = calls (trace w) @ [j..retries P]"
    by (simp only: i2 c1 l append_assoc append_Cons append_Nil)
  have g3: "tokens_taken (trace (snd ?R)) = tokens_taken (trace w) + nat (retries P - j + 1)"
    by (simp only: i3 t1 nat_eq)
  have g4: "\<forall>k\<in>{j..<retries P}.
            prefix (trace (ws k) @ [Call k, Sleep (random_value (env k) / 2 + 1 / 10)]) (trace (snd ?R))"
    unfolding split using i4 p1 by blast
  show ?case
    unfolding eq using i1 g2 g3 g4 by blast
qed

text \<open>
  The same for a run that ends at attempt \<open>s\<close>: every attempt before \<open>s\<close> fails with an
  exception that is retried, and attempt \<open>s\<close> raises an exception of the rate-limit
  class, or is the last attempt allowed.
\<close>

lemma retry_loop_stops_at:
  assumes "j \<le> s" and "s \<le> retries P"
    and "\<forall>k\<in>{j..<s}. target_result (env k) = Inl (errs k)
            \<and> instance_of_Exception (errs k) \<and> \<not> rate_limit_class (errs k)"
    and "target_result (env s) = Inl (errs s)"
    and "rate_limit_class (errs s) \<or> (instance_of_Exception (errs s) \<and> s = retries P)"
    and "TokenBucket_consume P (clock_at_entry (env j)) (clock_in_loop (env j)) w = (Returned (), ws j)"
    and "\<forall>k\<in>{j..<s}.
            TokenBucket_consume P (clock_at_entry (env (k + 1))) (clock_in_loop (env (k + 1)))
              ((ws k)\<lparr>trace := trace (ws k) @ [Call k, Sleep (random_value (env k) / 2 + 1 / 10)]\<rparr>)
            = (Returned (), ws (k + 1))"
  shows "retry_loop P env [j..retries P] w
           = (Raised (errs s), (ws s)\<lparr>trace := trace (ws s) @ [Call s]\<rparr>)
       \<and> calls (trace (snd (retry_loop P env [j..retries P] w))) = calls (trace w) @ [j..s]"
  using assms(1,3,6,7)
proof (induction "nat (s - j)" arbitrary: j w)
  case 0
  then have j: "j = s" by simp
  have l: "[j..retries P] = j # [j + 1..retries P]"
    using j assms(2) by (simp add: upto_rec1)
  have eq: "retry_loop P env (j # [j + 1..retries P]) w
            = (Raised (errs j), (ws j)\<lparr>trace := trace (ws j) @ [Call j]\<rparr>)"
  proof (cases "rate_limit_class (errs s)")
    case True
    with retry_step_rate_limit [where P = P and env = env and k = j and w = w and u = "ws j"
        and e = "errs j" and rest = "[j + 1..retries P]"] "0.prems"(3) assms(4) j
    show ?thesis by simp
  next
    case False
    with assms(5) have "instance_of_Exception (errs s)" "s = retries P" by auto
    with retry_step_last [where P = P and env = env and k = j and w = w and u = "ws j"
        and e = "errs j" and rest = "[j + 1..retries P]"] "0.prems"(3) assms(4) j False
    show ?thesis by simp
  qed
  note ev = consume_events [OF "0.prems"(3)]
  show ?case
    unfolding l eq using ev j by (simp add: calls_append)
next
  case (Suc n)
  then have lt: "j < s" by simp
  with assms(2) have ltN: "j < retries P" by simp
  have l: "[j..retries P] = j # [j + 1..retries P]"
    using ltN by (simp add: upto_rec1)
  have l': "[j..s] = j # [j + 1..s]"
    using lt by (simp add: upto_rec1)
  from Suc.prems(2) lt have e: "target_result (env j) = Inl (errs j)"
    "instance_of_Exception (errs j)" "\<not> rate_limit_class (errs j)" by auto
  let ?w1 = "(ws j)\<lparr>trace := trace (ws j) @ [Call j, Sleep (random_value (env j) / 2 + 1 / 10)]\<rparr>"
  let ?R = "retry_loop P env [j + 1..retries P] ?w1"
  have eq: "retry_loop P env [j..retries P] w = ?R"
    unfolding l
    using retry_step_transient [where P = P and env = env and k = j and w = w and u = "ws j"
        and e = "errs j" and rest = "[j + 1..retries P]"] Suc.prems(3) e ltN by simp
  have n: "n = nat (s - (j + 1))" using Suc.hyps(2) by simp
  have le: "j + 1 \<le> s" using lt by simp
  have errs': "\<forall>k\<in>{j + 1..<s}. target_result (env k) = Inl (errs k)
            \<and> instance_of_Exception (errs k) \<and> \<not> rate_limit_class (errs k)"
    using Suc.prems(2) by simp
  have first': "TokenBucket_consume P (clock_at_entry (env (j + 1))) (clock_in_loop (env (j + 1))) ?w1
      = (Returned (), ws (j + 1))"
    using Suc.prems(4) lt by simp
  have chain': "\<forall>k\<in>{j + 1..<s}.
            TokenBucket_consume P (clock_at_entry (env (k + 1))) (clock_in_loop (env (k + 1)))
              ((ws k)\<lparr>trace := trace (ws k) @ [Call k, Sleep (random_value (env k) / 2 + 1 / 10)]\<rparr>)
            = (Returned (), ws (k + 1))"
    using Suc.prems(4) by simp
  note IH = Suc.hyps(1) [OF n le errs' first' chain']
  have i1: "?R = (Raised (errs s), (ws s)\<lparr>trace := trace (ws s) @ [Call s]\<rparr>)"
    using IH by blast
  have i2: "calls (trace (snd ?R)) = calls (trace ?w1) @ [j + 1..s]"
    using IH by blast
  note ev = consume_events [OF Suc.prems(3)]
  have c1: "calls (trace ?w1) = calls (trace w) @ [j]"
    using ev by (simp add: calls_append)
  have g2: "calls (trace (snd ?R)) = calls (trace w) @ [j..s]"
    by (simp only: i2 c1 l' append_assoc append_Cons append_Nil)
  show ?case
    unfolding eq using i1 g2 by blast
qed

subsection \<open>The wrapper as a whole\<close>

text \<open>
  Claim C2, as the code has it. Let \<open>retries\<close> be at least 1 and let the \<open>consume\<close>
  before the first attempt return. If the first attempt raises an exception of the
  rate-limit class, which is the quota error or an HTTP error of status 420,
  \<open>retry_function\<close> raises that same exception right after this attempt: the only
  attempt made is attempt 1, and nothing happens after it, however many attempts are
  left. The HTTP status named Too Many Requests, 429, is not in this class.
\<close>

theorem rate_limit_error_is_not_retried:
  assumes "1 \<le> retries P"
    and "TokenBucket_consume P (clock_at_entry (env 1)) (clock_in_loop (env 1)) w = (Returned (), u)"
    and "target_result (env 1) = Inl e"
    and "rate_limit_class e"
  shows "retry_function P env w = (Raised e, u\<lparr>trace := trace u @ [Call 1]\<rparr>)
       \<and> calls (trace (snd (retry_function P env w))) = calls (trace w) @ [1]"
proof -
  have l: "[1..retries P] = 1 # [2..retries P]"
    using assms(1) by (simp add: upto_rec1)
  have eq: "retry_function P env w = (Raised e, u\<lparr>trace := trace u @ [Call 1]\<rparr>)"
    unfolding retry_function_def l
    using retry_step_rate_limit [where P = P and env = env and k = 1 and w = w and u = u and e = e
        and rest = "[2..retries P]"] assms(2-4) by simp
  show ?thesis
    unfolding eq using consume_events(1) [OF assms(2)] by (simp add: calls_append)
qed

text \<open>
  An instance: three attempts allowed; the bucket is empty, \<open>consume\<close> sleeps half a
  second and takes the token minted at time 1.5; the operation raises the quota error.
\<close>

theorem rate_limit_error_is_not_retried_witness:
  "retry_function \<lparr>request_interval = 1, request_batch_size = 1, retries = 3\<rparr>
     (\<lambda>k. \<lparr>clock_at_entry = 1 / 2, clock_in_loop = [1 / 2, 3 / 2],
            target_result = (Inl (RateLimitExceededError ''quota'') :: exn + nat option),
            random_value = 1 / 4\<rparr>)
     \<lparr>bucket = \<lparr>tokens = 0, update = 0\<rparr>, trace = []\<rparr>
   = (Raised (RateLimitExceededError ''quota''),
      \<lparr>bucket = \<lparr>tokens = 0, update = 3 / 2\<rparr>, trace = [Sleep (1 / 2), TakeToken, Call 1]\<rparr>)"
proof -
  let ?P = "\<lparr>request_interval = 1, request_batch_size = 1, retries = 3\<rparr>"
  let ?env = "\<lambda>k::int. \<lparr>clock_at_entry = 1 / 2, clock_in_loop = [1 / 2, 3 / 2],
            target_result = (Inl (RateLimitExceededError ''quota'') :: exn + nat option),
            random_value = 1 / 4\<rparr>"
  let ?w = "\<lparr>bucket = \<lparr>tokens = 0, update = 0\<rparr>, trace = []\<rparr>"
  let ?u = "\<lparr>bucket = \<lparr>tokens = 0, update = 3 / 2\<rparr>, trace = [Sleep (1 / 2), TakeToken]\<rparr>"
  have h1: "1 \<le> retries ?P" by simp
  have h2: "TokenBucket_consume ?P (clock_at_entry (?env 1)) (clock_in_loop (?env 1)) ?w = (Returned (), ?u)"
    by (simp add: TokenBucket_consume_def TokenBucket_tokens_def consume_delay_def py_int_def Let_def)
  have h3: "target_result (?env 1) = Inl (RateLimitExceededError ''quota'')" by simp
  have h4: "rate_limit_class (RateLimitExceededError ''quota'')" by simp
  show ?thesis
    using rate_limit_error_is_not_retried [of ?P ?env ?w ?u, OF h1 h2 h3 h4] by simp
qed

text \<open>
  An HTTP error of status 429, Too Many Requests, on the first of two attempts is not
  re-raised at once: the wrapper sleeps and makes the second attempt.
\<close>

theorem status_429_is_retried:
  "retry_function \<lparr>request_interval = 1, request_batch_size = 2, retries = 2\<rparr>
     (\<lambda>k. \<lparr>clock_at_entry = 5, clock_in_loop = [5],
            target_result = (Inl (HTTPError 429 ''Too Many Requests'') :: exn + nat option),
            random_value = 1 / 2\<rparr>)
     \<lparr>bucket = \<lparr>tokens = 2, update = 0\<rparr>, trace = []\<rparr>
   = (Raised (HTTPError 429 ''Too Many Requests''),
      \<lparr>bucket = \<lparr>tokens = 1, update = 5\<rparr>,
       trace = [TakeToken, Call 1, Sleep (7 / 20), TakeToken, Call 2]\<rparr>)
   \<and> calls [TakeToken, Call 1, Sleep (7 / 20), TakeToken, Call 2] = [1, 2]"
  by (simp add: retry_function_def upto_rec1 TokenBucket_consume_def TokenBucket_tokens_def
      consume_delay_def py_int_def except_clauses_def handle_exception_def Let_def)

text \<open>
  Claim C3. Let \<open>retries\<close> be at least 1, let attempt \<open>k\<close> raise \<open>errs k\<close>, an instance of
  \<open>Exception\<close> outside the rate-limit class, for every \<open>k\<close> from 1 to \<open>retries\<close>, and let
  every \<open>consume\<close> return, \<open>ws k\<close> being the world it leaves before attempt \<open>k\<close>. Then
  \<open>retry_function\<close> raises \<open>errs retries\<close>, the exception of the last attempt, unchanged;
  the attempts made are exactly \<open>1, ..., retries\<close>, in this order; exactly \<open>retries\<close>
  tokens are taken, one at the end of the \<open>consume\<close> that precedes each attempt; each
  attempt but the last is followed by a sleep of \<open>random.random() / 2 + 0.1\<close> seconds;
  and nothing follows the last attempt. Whatever the operation does, no more than
  \<open>retries\<close> attempts are made.
\<close>

theorem transient_errors_exhaust_the_attempts:
  assumes "1 \<le> retries P"
    and "\<forall>k\<in>{1..retries P}. target_result (env k) = Inl (errs k)
            \<and> instance_of_Exception (errs k) \<and> \<not> rate_limit_class (errs k)"
    and "TokenBucket_consume P (clock_at_entry (env 1)) (clock_in_loop (env 1)) w = (Returned (), ws 1)"
    and "\<forall>k\<in>{1..<retries P}.
            TokenBucket_consume P (clock_at_entry (env (k + 1))) (clock_in_loop (env (k + 1)))
              ((ws k)\<lparr>trace := trace (ws k) @ [Call k, Sleep (random_value (env k) / 2 + 1 / 10)]\<rparr>)
            = (Returned (), ws (k + 1))"
  shows "retry_function P env w
           = (Raised (errs (retries P)),
              (ws (retries P))\<lparr>trace := trace (ws (retries P)) @ [Call (retries P)]\<rparr>)
       \<and> calls (trace (snd (retry_function P env w))) = calls (trace w) @ [1..retries P]
       \<and> tokens_taken (trace (snd (retry_function P env w))) = tokens_taken (trace w) + nat (retries P)
       \<and> (\<forall>k\<in>{1..retries P}. \<exists>es. trace (ws k) = es @ [TakeToken])
       \<and> (\<forall>k\<in>{1..<retries P}.
            prefix (trace (ws k) @ [Call k, Sleep (random_value (env k) / 2 + 1 / 10)])
              (trace (snd (retry_function P env w))))
       \<and> (\<forall>env' w'. length (calls (trace (snd (retry_function P env' w'))))
                       \<le> length (calls (trace w')) + nat (retries P))"
proof -
  note main = retry_loop_exhausts [OF assms(1) assms(2) assms(3) assms(4)]
  have takes: "\<exists>es. trace (ws k) = es @ [TakeToken]" if k: "k \<in> {1..retries P}" for k
  proof (cases "k = 1")
    case True
    with consume_returned_takes [OF assms(3)] show ?thesis by simp
  next
    case False
    with k have "k - 1 \<in> {1..<retries P}" by simp
    with assms(4) have "TokenBucket_consume P (clock_at_entry (env (k - 1 + 1))) (clock_in_loop (env (k - 1 + 1)))
              ((ws (k - 1))\<lparr>trace := trace (ws (k - 1)) @ [Call (k - 1), Sleep (random_value (env (k - 1)) / 2 + 1 / 10)]\<rparr>)
            = (Returned (), ws (k - 1 + 1))" by blast
    from consume_returned_takes [OF this] show ?thesis by simp
  qed
  have n: "nat (retries P - 1 + 1) = nat (retries P)" by simp
  show ?thesis
    unfolding retry_function_def
    using main takes retry_function_attempt_bound [of P]
    unfolding retry_function_def n by blast
qed

text \<open>
  An instance: two attempts allowed and an empty bucket of size 1, so that each
  \<open>consume\<close> sleeps once before its token is minted. The first attempt raises a plain
  exception, the second an HTTP error of status 429, which is the one re-raised.
\<close>

theorem transient_errors_exhaust_the_attempts_witness:
  "retry_function \<lparr>request_interval = 1, request_batch_size = 1, retries = 2\<rparr>
     (\<lambda>k. if k = 1
          then \<lparr>clock_at_entry = 1 / 2, clock_in_loop = [1 / 2, 3 / 2],
                target_result = (Inl (Exception ''first'') :: exn + nat option),
                random_value = 1 / 2\<rparr>
          else \<lparr>clock_at_entry = 2, clock_in_loop = [2, 3],
                target_result = Inl (HTTPError 429 ''second''), random_value = 1 / 4\<rparr>)
     \<lparr>bucket = \<lparr>tokens = 0, update = 0\<rparr>, trace = []\<rparr>
   = (Raised (HTTPError 429 ''second''),
      \<lparr>bucket = \<lparr>tokens = 0, update = 3\<rparr>,
       trace = [Sleep (1 / 2), TakeToken, Call 1, Sleep (7 / 20),
                Sleep (1 / 2), TakeToken, Call 2]\<rparr>)"
proof -
  let ?P = "\<lparr>request_interval = 1, request_batch_size = 1, retries = 2\<rparr>"
  let ?env = "\<lambda>k::int. if k = 1
          then \<lparr>clock_at_entry = 1 / 2, clock_in_loop = [1 / 2, 3 / 2],
                target_result = (Inl (Exception ''first'') :: exn + nat option),
                random_value = 1 / 2\<rparr>
          else \<lparr>clock_at_entry = 2, clock_in_loop = [2, 3],
                target_result = Inl (HTTPError 429 ''second''), random_value = 1 / 4\<rparr>"
  let ?errs = "\<lambda>k::int. if k = 1 then Exception ''first'' else HTTPError 429 ''second''"
  let ?w = "\<lparr>bucket = \<lparr>tokens = 0, update = 0\<rparr>, trace = []\<rparr>"
  let ?ws = "\<lambda>k::int. if k = 1
          then \<lparr>bucket = \<lparr>tokens = 0, update = 3 / 2\<rparr>, trace = [Sleep (1 / 2), TakeToken]\<rparr>
          else \<lparr>bucket = \<lparr>tokens = 0, update = 3\<rparr>,
                trace = [Sleep (1 / 2), TakeToken, Call 1, Sleep (7 / 20), Sleep (1 / 2), TakeToken]\<rparr>"
  have h1: "1 \<le> retries ?P" by simp
  have h2: "\<forall>k\<in>{1..retries ?P}. target_result (?env k) = Inl (?errs k)
            \<and> instance_of_Exception (?errs k) \<and> \<not> rate_limit_class (?errs k)"
    by simp
  have h3: "TokenBucket_consume ?P (clock_at_entry (?env 1)) (clock_in_loop (?env 1)) ?w = (Returned (), ?ws 1)"
    by (simp add: TokenBucket_consume_def TokenBucket_tokens_def consume_delay_def py_int_def Let_def)
  have r: "{1..<retries ?P} = {1}" by auto
  have h4: "\<forall>k\<in>{1..<retries ?P}.
            TokenBucket_consume ?P (clock_at_entry (?env (k + 1))) (clock_in_loop (?env (k + 1)))
              ((?ws k)\<lparr>trace := trace (?ws k) @ [Call k, Sleep (random_value (?env k) / 2 + 1 / 10)]\<rparr>)
            = (Returned (), ?ws (k + 1))"
    unfolding r
    by (simp add: TokenBucket_consume_def TokenBucket_tokens_def consume_delay_def py_int_def Let_def)
  show ?thesis
    using transient_errors_exhaust_the_attempts [of ?P ?env ?errs ?w ?ws, OF h1 h2 h3 h4, THEN conjunct1]
    by simp
qed

text \<open>
  Claim C9. Let the attempts \<open>1, ..., s\<close> raise HTTP errors, attempt \<open>k\<close> with the status
  \<open>code k\<close>, let \<open>s\<close> be at most \<open>retries\<close>, and let every \<open>consume\<close> up to attempt \<open>s\<close>
  return. If no status before attempt \<open>s\<close> is 420, and the status of attempt \<open>s\<close> is 420
  or \<open>s\<close> is the last attempt allowed, then \<open>retry_function\<close> makes exactly the attempts
  \<open>1, ..., s\<close> and raises the error of attempt \<open>s\<close>. So at every attempt an HTTP error of
  status 420 is re-raised at once, whatever number of attempts is left, and an HTTP
  error of any other status, 429 included, is followed by the next attempt as long as
  one is left, and re-raised at the last one.
\<close>

theorem status_420_is_the_rate_limit_status:
  assumes "1 \<le> s" and "s \<le> retries P"
    and "\<forall>k\<in>{1..s}. target_result (env k) = Inl (HTTPError (code k) (msg k))"
    and "\<forall>k\<in>{1..<s}. code k \<noteq> 420"
    and "code s = 420 \<or> s = retries P"
    and "TokenBucket_consume P (clock_at_entry (env 1)) (clock_in_loop (env 1)) w = (Returned (), ws 1)"
    and "\<forall>k\<in>{1..<s}.
            TokenBucket_consume P (clock_at_entry (env (k + 1))) (clock_in_loop (env (k + 1)))
              ((ws k)\<lparr>trace := trace (ws k) @ [Call k, Sleep (random_value (env k) / 2 + 1 / 10)]\<rparr>)
            = (Returned (), ws (k + 1))"
  shows "retry_function P env w
           = (Raised (HTTPError (code s) (msg s)), (ws s)\<lparr>trace := trace (ws s) @ [Call s]\<rparr>)
       \<and> calls (trace (snd (retry_function P env w))) = calls (trace w) @ [1..s]"
proof -
  let ?errs = "\<lambda>k. HTTPError (code k) (msg k)"
  have a: "\<forall>k\<in>{1..<s}. target_result (env k) = Inl (?errs k)
            \<and> instance_of_Exception (?errs k) \<and> \<not> rate_limit_class (?errs k)"
    using assms(3,4) by simp
  have b: "target_result (env s) = Inl (?errs s)"
    using assms(1,3) by simp
  have c: "rate_limit_class (?errs s) \<or> (instance_of_Exception (?errs s) \<and> s = retries P)"
    using assms(5) by auto
  show ?thesis
    unfolding retry_function_def
    using retry_loop_stops_at [where errs = ?errs, OF assms(1) assms(2) a b c assms(6) assms(7)] .
qed

text \<open>
  Two instances. Two attempts allowed and status 429 at both: both attempts are made,
  with the sleep between them, and the second error is re-raised. Three attempts
  allowed, status 429 at the first attempt and 420 at the second: the second attempt is
  made and its error re-raised, and the third attempt is not made.
\<close>

theorem status_420_is_the_rate_limit_status_witness:
  "retry_function \<lparr>request_interval = 1, request_batch_size = 1, retries = 2\<rparr>
      (\<lambda>k. \<lparr>clock_at_entry = 5, clock_in_loop = [5],
             target_result = (Inl (HTTPError 429 ''Too Many Requests'') :: exn + nat option),
             random_value = 1 / 2\<rparr>)
      \<lparr>bucket = \<lparr>tokens = 1, update = 0\<rparr>, trace = []\<rparr>
    = (Raised (HTTPError 429 ''Too Many Requests''),
       \<lparr>bucket = \<lparr>tokens = 0, update = 5\<rparr>,
        trace = [TakeToken, Call 1, Sleep (7 / 20), TakeToken, Call 2]\<rparr>)
   \<and> retry_function \<lparr>request_interval = 1, request_batch_size = 1, retries = 3\<rparr>
      (\<lambda>k. if k = 1
           then \<lparr>clock_at_entry = 5, clock_in_loop = [5],
                 target_result = (Inl (HTTPError 429 ''Too Many Requests'') :: exn + nat option),
                 random_value = 1 / 2\<rparr>
           else \<lparr>clock_at_entry = 6, clock_in_loop = [6],
                 target_result = Inl (HTTPError 420 ''Enhance Your Calm''),
                 random_value = 1 / 2\<rparr>)
      \<lparr>bucket = \<lparr>tokens = 1, update = 0\<rparr>, trace = []\<rparr>
    = (Raised (HTTPError 420 ''Enhance Your Calm''),
       \<lparr>bucket = \<lparr>tokens = 0, update = 6\<rparr>,
        trace = [TakeToken, Call 1, Sleep (7 / 20), TakeToken, Call 2]\<rparr>)"
proof -
  note ev = TokenBucket_consume_def TokenBucket_tokens_def consume_delay_def py_int_def Let_def
  let ?w = "\<lparr>bucket = \<lparr>tokens = 1, update = 0\<rparr>, trace = []\<rparr>"
  let ?P2 = "\<lparr>request_interval = 1, request_batch_size = 1, retries = 2\<rparr>"
  let ?envA = "\<lambda>k::int. \<lparr>clock_at_entry = 5, clock_in_loop = [5],
             target_result = (Inl (HTTPError 429 ''Too Many Requests'') :: exn + nat option),
             random_value = 1 / 2\<rparr>"
  let ?wsA = "\<lambda>k::int. if k = 1
      then \<lparr>bucket = \<lparr>tokens = 0, update = 0\<rparr>, trace = [TakeToken]\<rparr>
      else \<lparr>bucket = \<lparr>tokens = 0, update = 5\<rparr>,
            trace = [TakeToken, Call 1, Sleep (7 / 20), TakeToken]\<rparr>"
  let ?codeA = "\<lambda>k::int. 429 :: int"
  let ?msgA = "\<lambda>k::int. ''Too Many Requests''"
  have r: "{1..<2::int} = {1}" by auto
  have a1: "(1::int) \<le> 2" by simp
  have a2: "(2::int) \<le> retries ?P2" by simp
  have a3: "\<forall>k\<in>{1..2}. target_result (?envA k) = Inl (HTTPError (?codeA k) (?msgA k))" by simp
  have a4: "\<forall>k\<in>{1..<2}. ?codeA k \<noteq> 420" by simp
  have a5: "?codeA 2 = 420 \<or> 2 = retries ?P2" by simp
  have a6: "TokenBucket_consume ?P2 (clock_at_entry (?envA 1)) (clock_in_loop (?envA 1)) ?w
            = (Returned (), ?wsA 1)"
    by (simp add: ev)
  have a7: "\<forall>k\<in>{1..<2}.
            TokenBucket_consume ?P2 (clock_at_entry (?envA (k + 1))) (clock_in_loop (?envA (k + 1)))
              ((?wsA k)\<lparr>trace := trace (?wsA k) @ [Call k, Sleep (random_value (?envA k) / 2 + 1 / 10)]\<rparr>)
            = (Returned (), ?wsA (k + 1))"
    unfolding r by (simp add: ev)
  have A: "retry_function ?P2 ?envA ?w
    = (Raised (HTTPError 429 ''Too Many Requests''),
       \<lparr>bucket = \<lparr>tokens = 0, update = 5\<rparr>,
        trace = [TakeToken, Call 1, Sleep (7 / 20), TakeToken, Call 2]\<rparr>)"
    using status_420_is_the_rate_limit_status
      [where P = ?P2 and env = ?envA and w = ?w and ws = ?wsA and code = ?codeA and msg = ?msgA
        and s = 2, OF a1 a2 a3 a4 a5 a6 a7, THEN conjunct1]
    by simp
  let ?P3 = "\<lparr>request_interval = 1, request_batch_size = 1, retries = 3\<rparr>"
  let ?envB = "\<lambda>k::int. if k = 1
           then \<lparr>clock_at_entry = 5, clock_in_loop = [5],
                 target_result = (Inl (HTTPError 429 ''Too Many Requests'') :: exn + nat option),
                 random_value = 1 / 2\<rparr>
           else \<lparr>clock_at_entry = 6, clock_in_loop = [6],
                 target_result = Inl (HTTPError 420 ''Enhance Your Calm''),
                 random_value = 1 / 2\<rparr>"
  let ?wsB = "\<lambda>k::int. if k = 1
      then \<lparr>bucket = \<lparr>tokens = 0, update = 0\<rparr>, trace = [TakeToken]\<rparr>
      else \<lparr>bucket = \<lparr>tokens = 0, update = 6\<rparr>,
            trace = [TakeToken, Call 1, Sleep (7 / 20), TakeToken]\<rparr>"
  let ?codeB = "\<lambda>k::int. if k = 1 then 429 else 420 :: int"
  let ?msgB = "\<lambda>k::int. if k = 1 then ''Too Many Requests'' else ''Enhance Your Calm''"
  have b2: "(2::int) \<le> retries ?P3" by simp
  have b3: "\<forall>k\<in>{1..2}. target_result (?envB k) = Inl (HTTPError (?codeB k) (?msgB k))" by simp
  have b4: "\<forall>k\<in>{1..<2}. ?codeB k \<noteq> 420" unfolding r by simp
  have b5: "?codeB 2 = 420 \<or> 2 = retries ?P3" by simp
  have b6: "TokenBucket_consume ?P3 (clock_at_entry (?envB 1)) (clock_in_loop (?envB 1)) ?w
            = (Returned (), ?wsB 1)"
    by (simp add: ev)
  have b7: "\<forall>k\<in>{1..<2}.
            TokenBucket_consume ?P3 (clock_at_entry (?envB (k + 1))) (clock_in_loop (?envB (k + 1)))
              ((?wsB k)\<lparr>trace := trace (?wsB k) @ [Call k, Sleep (random_value (?envB k) / 2 + 1 / 10)]\<rparr>)
            = (Returned (), ?wsB (k + 1))"
    unfolding r by (simp add: ev)
  have B: "retry_function ?P3 ?envB ?w
    = (Raised (HTTPError 420 ''Enhance Your Calm''),
       \<lparr>bucket = \<lparr>tokens = 0, update = 6\<rparr>,
        trace = [TakeToken, Call 1, Sleep (7 / 20), TakeToken, Call 2]\<rparr>)"
    using status_420_is_the_rate_limit_status
      [where P = ?P3 and env = ?envB and w = ?w and ws = ?wsB and code = ?codeB and msg = ?msgB
        and s = 2, OF a1 b2 b3 b4 b5 b6 b7, THEN conjunct1]
    by simp
  from A B show ?thesis by blast
qed

text \<open>
  Claim C10. If \<open>retries\<close> is 0 or negative, \<open>retry_function\<close> returns \<open>None\<close> and
  changes nothing: the operation is not called, \<open>consume\<close> is not called, so no token is
  taken, and nothing is raised.
\<close>

theorem no_attempt_without_retries:
  assumes "retries P \<le> 0"
  shows "retry_function P env w = (Returned None, w)"
  using assms by (simp add: retry_function_def)

text \<open>An instance: \<open>retries = 0\<close> and an operation that would return 7.\<close>

theorem no_attempt_without_retries_witness:
  "retry_function \<lparr>request_interval = 1, request_batch_size = 1, retries = 0\<rparr>
     (\<lambda>k. \<lparr>clock_at_entry = 5, clock_in_loop = [5],
            target_result = (Inr (Some 7) :: exn + nat option), random_value = 1 / 4\<rparr>)
     \<lparr>bucket = \<lparr>tokens = 1, update = 0\<rparr>, trace = []\<rparr>
   = (Returned None, \<lparr>bucket = \<lparr>tokens = 1, update = 0\<rparr>, trace = []\<rparr>)"
  using no_attempt_without_retries
    [of "\<lparr>request_interval = 1, request_batch_size = 1, retries = 0\<rparr>"]
  by simp

section \<open>Properties of the client\<close>

subsection \<open>lookup_issue_image_urls\<close>

lemma collect_all_urls:
  "collect_urls img False ks urls = urls @ List.map_filter (map_of img) ks"
  by (induction ks arbitrary: urls) (simp_all split: option.split)

lemma collect_best_url:
  "collect_urls img True ks urls = urls @ take 1 (List.map_filter (map_of img) ks)"
  by (induction ks arbitrary: urls) (simp_all split: option.split)

lemma collect_urls_map_filter:
  "collect_urls img best ks urls
   = (if best then urls @ take 1 (List.map_filter (map_of img) ks)
      else urls @ List.map_filter (map_of img) ks)"
  by (simp add: collect_all_urls collect_best_url)

text \<open>
  Claim C7. From the answer of the catalog, the body of \<open>lookup_issue_image_urls\<close>
  returns the URLs the image has under the keys \<open>super_url\<close>, \<open>medium_url\<close> and
  \<open>small_url\<close>, in this order, the keys the image lacks being skipped; with
  \<open>get_best_cover\<close> it returns the first of them only, so at most one URL. When the issue
  is absent, or its image is absent or empty, it returns the empty list and raises
  nothing. An exception is raised only when the request to the catalog raises it.
\<close>

theorem image_urls_in_quality_order:
  "lookup_issue_image_urls (Inr (Some (Some img))) get_best_cover
     = Inr (if get_best_cover
            then take 1 (List.map_filter (map_of img) [''super_url'', ''medium_url'', ''small_url''])
            else List.map_filter (map_of img) [''super_url'', ''medium_url'', ''small_url''])
   \<and> lookup_issue_image_urls (Inr (Some None) :: exn + 'u image_dict option option) get_best_cover = Inr []
   \<and> lookup_issue_image_urls (Inr None :: exn + 'u image_dict option option) get_best_cover = Inr []
   \<and> lookup_issue_image_urls (Inl e :: exn + 'u image_dict option option) get_best_cover = Inl e"
proof -
  have nonempty: "lookup_issue_image_urls (Inr (Some (Some img))) get_best_cover
     = Inr (if get_best_cover
            then take 1 (List.map_filter (map_of img) [''super_url'', ''medium_url'', ''small_url''])
            else List.map_filter (map_of img) [''super_url'', ''medium_url'', ''small_url''])"
  proof (cases "img = []")
    case True
    then show ?thesis by (simp add: lookup_issue_image_urls_def)
  next
    case False
    then show ?thesis
      unfolding lookup_issue_image_urls_def url_keys_def collect_urls_map_filter by simp
  qed
  then show ?thesis by (simp add: lookup_issue_image_urls_def)
qed

subsection \<open>cache_comicvine\<close>

text \<open>
  Claim C8. When \<open>TMPDIR\<close> is not set, \<open>cache_comicvine\<close> returns the function it is
  given: a call of the decorated operation is a call of the operation itself, whatever
  \<open>FSCache\<close> would do, with the same result, value or exception, and the same effects.
  In particular a call of a cached, retried operation is the call of \<open>retry_function\<close>.
\<close>

theorem cache_without_TMPDIR_passes_through:
  "cache_comicvine FSCache None cache_name target_function = target_function
   \<and> cache_comicvine FSCache None cache_name (\<lambda>self args. retry_function P (env self args)) self args w
       = retry_function P (env self args) w"
  by (simp add: cache_comicvine_def)

section \<open>Properties of the ranking functions\<close>

subsection \<open>Strings\<close>

text \<open>The substring test is the one of the library: \<open>t\<close> occurs in \<open>s\<close> as a block.\<close>

lemma is_substring_sublist: "is_substring t s = sublist t s"
  by (induction s) (simp_all add: sublist_Cons_right)

lemma score_foldl:
  "foldl (\<lambda>score token. if \<not> Q token then score + 10 else score) acc toks
   = acc + 10 * int (length (filter (\<lambda>token. \<not> Q token) toks))"
  by (induction toks arbitrary: acc) simp_all

lemma lower_Dogville: "lower ''Dogville'' = ''dogville''"
  by (simp add: lower_def lower_char_def ascii_uppercase_def ascii_lowercase_def)

lemma strip_Dogville: "strip ''  Dogville  '' = ''Dogville''" "strip ''Dogville'' = ''Dogville''"
  by (simp_all add: strip_def is_space_def)

lemma lower_tokens:
  "lower ''dogville'' = ''dogville''" "lower ''awakening'' = ''awakening''"
  "lower ''by'' = ''by''" "lower ''cats'' = ''cats''"
  by (simp_all add: lower_def lower_char_def ascii_uppercase_def ascii_lowercase_def)

lemma title_year_examples:
  "title_year ''Dogville #2 (2000)'' = Some 2000" "title_year ''Dogville #2'' = None"
  by (simp_all add: is_digit_def digit_value_def)

subsection \<open>The scores\<close>

text \<open>
  Claim C5. \<open>score_title_tokens title tokens\<close> is 10 times the number of tokens whose
  lowercased text is not a substring of the lowercased, whitespace-trimmed title. It is 0
  for no tokens, 10 for \<open>Dogville\<close> and \<open>[awakening]\<close>, 30 for \<open>Dogville\<close> and
  \<open>[dogville, awakening, by, cats]\<close>, and 0 for \<open>Dogville\<close> between spaces and
  \<open>[dogville]\<close>.
\<close>

theorem score_title_tokens_counts_missing_tokens:
  "score_title_tokens title title_tokens
     = 10 * int (length (filter (\<lambda>token. \<not> sublist (lower token) (lower (strip title))) title_tokens))
   \<and> score_title_tokens ''Dogville'' [] = 0
   \<and> score_title_tokens ''Dogville'' [''awakening''] = 10
   \<and> score_title_tokens ''Dogville'' [''dogville'', ''awakening'', ''by'', ''cats''] = 30
   \<and> score_title_tokens ''  Dogville  '' [''dogville''] = 0"
proof -
  have general: "score_title_tokens t toks
     = 10 * int (length (filter (\<lambda>token. \<not> sublist (lower token) (lower (strip t))) toks))" for t toks
    unfolding score_title_tokens_def is_substring_sublist by (simp add: score_foldl)
  have v0: "score_title_tokens ''Dogville'' [] = 0"
    by (simp add: score_title_tokens_def)
  have v1: "score_title_tokens ''Dogville'' [''awakening''] = 10"
    by (simp add: score_title_tokens_def strip_Dogville lower_Dogville lower_tokens)
  have v2: "score_title_tokens ''Dogville'' [''dogville'', ''awakening'', ''by'', ''cats''] = 30"
    by (simp add: score_title_tokens_def strip_Dogville lower_Dogville lower_tokens)
  have v3: "score_title_tokens ''  Dogville  '' [''dogville''] = 0"
    by (simp add: score_title_tokens_def strip_Dogville lower_Dogville lower_tokens)
  from general v0 v1 v2 v3 show ?thesis by blast
qed

text \<open>
  Claim C6. \<open>score_publish_date title known_date\<close> is 10 when the known date is absent,
  whatever the title; with a known date it is 0 when the title has no year in
  parentheses, and the absolute difference of the two years when it has one. It is 16
  for \<open>Dogville #2 (2000)\<close> and the year 1984, and 0 when the years are equal.
\<close>

theorem score_publish_date_cases:
  "score_publish_date title None = 10
   \<and> score_publish_date title (Some year)
       = (case title_year title of None \<Rightarrow> 0 | Some y \<Rightarrow> \<bar>y - year\<bar>)
   \<and> score_publish_date ''Dogville #2'' None = 10
   \<and> score_publish_date ''Dogville #2 (2000)'' None = 10
   \<and> score_publish_date ''Dogville #2'' (Some 2000) = 0
   \<and> score_publish_date ''Dogville #2 (2000)'' (Some 1984) = 16
   \<and> score_publish_date ''Dogville #2 (2000)'' (Some 2000) = 0"
proof -
  have general: "score_publish_date t None = 10
     \<and> score_publish_date t (Some yr) = (case title_year t of None \<Rightarrow> 0 | Some y \<Rightarrow> \<bar>y - yr\<bar>)" for t yr
    by (simp add: score_publish_date_def)
  have v1: "score_publish_date ''Dogville #2'' (Some 2000) = 0"
    unfolding score_publish_date_def title_year_examples by simp
  have v2: "score_publish_date ''Dogville #2 (2000)'' (Some 1984) = 16"
    unfolding score_publish_date_def title_year_examples by simp
  have v3: "score_publish_date ''Dogville #2 (2000)'' (Some 2000) = 0"
    unfolding score_publish_date_def title_year_examples by simp
  from general v1 v2 v3 show ?thesis by blast
qed

text \<open>The remaining assertions of the unit tests of the two functions.\<close>

lemma test_score_title_tokens:
  "score_title_tokens ''Dogville'' [''dogville'', ''awakening''] = 10"
  "score_title_tokens ''dogville'' [''dogville''] = 0"
  "score_title_tokens ''Dogville'' [''dogville''] = 0"
  by (simp_all add: score_title_tokens_def strip_def is_space_def lower_def lower_char_def
      ascii_uppercase_def ascii_lowercase_def)

lemma test_score_publish_date:
  "score_publish_date ''Dogville #2 (2000)'' (Some 1999) = 1"
  "score_publish_date ''Dogville #2 (2000)'' (Some 2001) = 1"
  "score_publish_date ''Dogville #2 (2000)'' (Some 2016) = 16"
  unfolding score_publish_date_def title_year_examples by simp_all

end
